theory Spec2Isabelle
  imports Main "HOL-Library.Word" "HOL-Library.Multiset"
begin

section \<open>Go values\<close>

text \<open>
  \<open>uint64\<close> is a 64-bit word: \<open>+\<close> wraps around and \<open><\<close> is the unsigned order.
  Go's \<open>int\<close> (64-bit targets) is a 64-bit word as well, read as two's complement with
  \<open>sint\<close>; the conversion \<open>uint64(x)\<close> of an \<open>int\<close> keeps the bit pattern.
\<close>

type_synonym u64 = "64 word"
type_synonym go_int = "64 word"

datatype go_panic = SendOnClosedChannel | CloseOfClosedChannel | MakeChanSizeOutOfRange

text \<open>
  What one call made by the only running caller can end in: a value together with the
  service as the call leaves it, a run-time panic, or a block that nothing can lift.
\<close>

datatype failure = Panic go_panic | BlocksForever

datatype 's outcome = Returns u64 's | Fails failure

section \<open>The four services of \<open>implementation_prework.go\<close>\<close>

subsection \<open>\<open>noSyncIdService\<close>\<close>

record noSyncIdService =
  ns_id :: u64

definition noSyncIdService_new :: noSyncIdService where
  "noSyncIdService_new = \<lparr>ns_id = 0\<rparr>"

text \<open>\<open>i.id++; return i.id\<close>, run by one caller without interruption.\<close>

definition noSync_getNext :: "noSyncIdService \<Rightarrow> u64 \<times> noSyncIdService" where
  "noSync_getNext i = (let i' = i\<lparr>ns_id := ns_id i + 1\<rparr> in (ns_id i', i'))"

text \<open>
  The same body as the machine runs it among other goroutines: a load of \<open>i.id\<close>, a store
  of the incremented value, and a second load for the \<open>return\<close>. The argument \<open>k\<close> (a
  choice of partner goroutine) matters to the channel-based service only.
\<close>

datatype ('s, 'c) call_result = Blocked | Panics go_panic | Next 's 'c | Return 's u64

datatype noSync_pc = NoSyncLoaded u64 | NoSyncStored

fun noSync_call ::
  "nat \<Rightarrow> noSyncIdService \<Rightarrow> noSync_pc option \<Rightarrow> (noSyncIdService, noSync_pc) call_result" where
  "noSync_call k i None = Next i (NoSyncLoaded (ns_id i))"
| "noSync_call k i (Some (NoSyncLoaded x)) = Next (i\<lparr>ns_id := x + 1\<rparr>) NoSyncStored"
| "noSync_call k i (Some NoSyncStored) = Return i (ns_id i)"

subsection \<open>\<open>atomicIdService\<close>\<close>

record atomicIdService =
  at_id :: u64

definition atomicIdService_new :: atomicIdService where
  "atomicIdService_new = \<lparr>at_id = 0\<rparr>"

text \<open>\<open>atomic.AddUint64(&i.id, 1)\<close> adds and returns the new value in one indivisible step.\<close>

definition atomic_getNext :: "atomicIdService \<Rightarrow> u64 \<times> atomicIdService" where
  "atomic_getNext i = (let n = at_id i + 1 in (n, i\<lparr>at_id := n\<rparr>))"

fun atomic_call ::
  "nat \<Rightarrow> atomicIdService \<Rightarrow> unit option \<Rightarrow> (atomicIdService, unit) call_result" where
  "atomic_call k i None = (case atomic_getNext i of (n, i') \<Rightarrow> Return i' n)"
| "atomic_call k i (Some u) = Blocked"

subsection \<open>\<open>mutexIdService\<close>\<close>

record mutexIdService =
  mu_locked :: bool
  mu_id :: u64

definition mutexIdService_new :: mutexIdService where
  "mutexIdService_new = \<lparr>mu_locked = False, mu_id = 0\<rparr>"

text \<open>
  \<open>i.Lock(); defer i.Unlock(); i.id += 1; return i.id\<close>. The result is evaluated before
  the deferred \<open>Unlock\<close> runs. A single caller that finds the mutex held waits for ever.
\<close>

definition mutex_getNext :: "mutexIdService \<Rightarrow> mutexIdService outcome" where
  "mutex_getNext i =
     (if mu_locked i then Fails BlocksForever
      else let i1 = i\<lparr>mu_locked := True\<rparr>;
               i2 = i1\<lparr>mu_id := mu_id i1 + 1\<rparr>;
               r = mu_id i2
           in Returns r (i2\<lparr>mu_locked := False\<rparr>))"

datatype mutex_pc = MutexHeld | MutexLoaded u64 | MutexStored | MutexReturning u64

fun mutex_call ::
  "nat \<Rightarrow> mutexIdService \<Rightarrow> mutex_pc option \<Rightarrow> (mutexIdService, mutex_pc) call_result" where
  "mutex_call k i None = (if mu_locked i then Blocked else Next (i\<lparr>mu_locked := True\<rparr>) MutexHeld)"
| "mutex_call k i (Some MutexHeld) = Next i (MutexLoaded (mu_id i))"
| "mutex_call k i (Some (MutexLoaded x)) = Next (i\<lparr>mu_id := x + 1\<rparr>) MutexStored"
| "mutex_call k i (Some MutexStored) = Next i (MutexReturning (mu_id i))"
| "mutex_call k i (Some (MutexReturning v)) = Return (i\<lparr>mu_locked := False\<rparr>) v"

subsection \<open>\<open>goroutineIdService\<close>\<close>

text \<open>
  The struct holds two unbuffered channels, \<open>requests\<close> and \<open>responses\<close>. What matters
  of them is whether each has been closed, and which goroutines started by \<open>Start\<close> serve
  them. The only \<open>close\<close> of the program is the one of \<open>Stop\<close>, on \<open>requests\<close>: no
  statement closes \<open>responses\<close>, so every operation below finds that channel open and
  leaves it as it is. Each serving goroutine has its own local \<open>id\<close> and stands at one point
  of its loop:
  \<^item> \<open>Listening\<close>: waiting in \<open>for range s.requests\<close>;
  \<^item> \<open>Incrementing\<close>: a request received, \<open>id++\<close> next;
  \<^item> \<open>Responding\<close>: waiting in \<open>s.responses <- id\<close> for a receiver;
  \<^item> \<open>Stopped\<close>: the loop has ended and the goroutine has returned.
\<close>

datatype owner_pc = Listening | Incrementing | Responding | Stopped

record owner =
  o_pc :: owner_pc
  o_id :: u64

record goroutineIdService =
  requests_closed :: bool
  responses_closed :: bool
  owners :: "owner list"

text \<open>\<open>go func() { id := uint64(0); for range s.requests { ... } }()\<close>: one more goroutine.\<close>

definition Start :: "goroutineIdService \<Rightarrow> goroutineIdService" where
  "Start s = s\<lparr>owners := owners s @ [\<lparr>o_pc = Listening, o_id = 0\<rparr>]\<rparr>"

text \<open>
  \<open>requests: make(chan struct{}), responses: make(chan uint64)\<close>, then \<open>service.Start()\<close>:
  both channels are open.
\<close>

definition MakeGoroutineIdService :: goroutineIdService where
  "MakeGoroutineIdService =
     Start \<lparr>requests_closed = False, responses_closed = False, owners = []\<rparr>"

text \<open>\<open>close(s.requests)\<close>: closing a channel that is closed already panics.\<close>

definition Stop :: "goroutineIdService \<Rightarrow> go_panic + goroutineIdService" where
  "Stop s = (if requests_closed s then Inl CloseOfClosedChannel
             else Inr (s\<lparr>requests_closed := True\<rparr>))"

text \<open>
  A step a serving goroutine takes on its own: \<open>id++\<close> after a request, or leaving the
  \<open>range\<close> loop once \<open>requests\<close> is closed. In \<open>Responding\<close> it waits for a receiver, and
  after \<open>Stopped\<close> there is nothing left to run.
\<close>

fun owner_step :: "bool \<Rightarrow> owner \<Rightarrow> owner option" where
  "owner_step closed ow =
     (case o_pc ow of
        Listening \<Rightarrow> if closed then Some (ow\<lparr>o_pc := Stopped\<rparr>) else None
      | Incrementing \<Rightarrow> Some (ow\<lparr>o_id := o_id ow + 1, o_pc := Responding\<rparr>)
      | Responding \<Rightarrow> None
      | Stopped \<Rightarrow> None)"

definition goroutine_internal :: "nat \<Rightarrow> goroutineIdService \<Rightarrow> goroutineIdService option" where
  "goroutine_internal k s =
     (if k < length (owners s)
      then map_option (\<lambda>ow. s\<lparr>owners := (owners s)[k := ow]\<rparr>)
             (owner_step (requests_closed s) (owners s ! k))
      else None)"

text \<open>
  \<open>s.requests <- struct{}{}; return <-s.responses\<close>. Both channels are unbuffered, so each
  operation is a hand-over with one serving goroutine \<open>k\<close>: the send needs \<open>k\<close> to be
  \<open>Listening\<close>, the receive needs it to be \<open>Responding\<close>. A send on a closed channel panics.
\<close>

datatype goroutine_pc = AwaitResponse

fun goroutine_call ::
  "nat \<Rightarrow> goroutineIdService \<Rightarrow> goroutine_pc option
     \<Rightarrow> (goroutineIdService, goroutine_pc) call_result" where
  "goroutine_call k s None =
     (if requests_closed s then Panics SendOnClosedChannel
      else if k < length (owners s) \<and> o_pc (owners s ! k) = Listening
      then Next (s\<lparr>owners := (owners s)[k := (owners s ! k)\<lparr>o_pc := Incrementing\<rparr>]\<rparr>) AwaitResponse
      else Blocked)"
| "goroutine_call k s (Some AwaitResponse) =
     (if k < length (owners s) \<and> o_pc (owners s ! k) = Responding
      then Return (s\<lparr>owners := (owners s)[k := (owners s ! k)\<lparr>o_pc := Listening\<rparr>]\<rparr>)
             (o_id (owners s ! k))
      else Blocked)"

text \<open>
  One whole call by the only caller of a service at rest (every serving goroutine
  \<open>Listening\<close> or \<open>Stopped\<close>): the request goes to any one listening goroutine, which
  increments its own \<open>id\<close> and answers. The list holds every possible outcome.
\<close>

definition serve :: "nat \<Rightarrow> goroutineIdService \<Rightarrow> goroutineIdService outcome" where
  "serve k s =
     (let v = o_id (owners s ! k) + 1
      in Returns v (s\<lparr>owners := (owners s)[k := (owners s ! k)\<lparr>o_id := v\<rparr>]\<rparr>))"

definition goroutine_getNext :: "goroutineIdService \<Rightarrow> goroutineIdService outcome list" where
  "goroutine_getNext s =
     (if requests_closed s then [Fails (Panic SendOnClosedChannel)]
      else case filter (\<lambda>k. o_pc (owners s ! k) = Listening) [0..<length (owners s)] of
             [] \<Rightarrow> [Fails BlocksForever]
           | ks \<Rightarrow> map (\<lambda>k. serve k s) ks)"

subsection \<open>Sequential calls by one caller\<close>

definition total :: "('s \<Rightarrow> u64 \<times> 's) \<Rightarrow> 's \<Rightarrow> 's outcome list" where
  "total f s = (case f s of (v, s') \<Rightarrow> [Returns v s'])"

definition single :: "('s \<Rightarrow> 's outcome) \<Rightarrow> 's \<Rightarrow> 's outcome list" where
  "single f s = [f s]"

text \<open>
  Every possible result of \<open>n\<close> calls made one after the other: the values in call order
  with the final service, or the failure that ended the sequence.
\<close>

fun "calls" :: "('s \<Rightarrow> 's outcome list) \<Rightarrow> nat \<Rightarrow> 's \<Rightarrow> (failure + u64 list \<times> 's) list" where
  "calls g 0 s = [Inr ([], s)]"
| "calls g (Suc n) s =
     concat (map (\<lambda>r. case r of
                         Inl e \<Rightarrow> [Inl e]
                       | Inr (vs, s') \<Rightarrow>
                           map (\<lambda>oc. case oc of
                                        Fails e \<Rightarrow> Inl e
                                      | Returns v s'' \<Rightarrow> Inr (vs @ [v], s''))
                               (g s'))
                 (calls g n s))"

definition returned :: "(failure + u64 list \<times> 's) list \<Rightarrow> (failure + u64 list) list" where
  "returned rs = map (map_sum (\<lambda>e. e) fst) rs"

section \<open>The harness: \<open>RunService\<close> of \<open>implementation_prework_test.go\<close>\<close>

text \<open>
  Each worker goroutine runs
  \<^verbatim>\<open>lastId := uint64(0)
  for j := 0; j < numCalls; j++ {
      id := service.getNext()
      if id < lastId { return fmt.Errorf(...) }
      idChan <- id
  }
  return nil\<close>
  and stands at the loop head, inside \<open>getNext\<close> (at a point \<open>'c\<close> of the service's
  code), at the send of a value it was handed, or has returned. \<open>lastId\<close> is never assigned
  in the loop. \<open>w_obs\<close> records the values \<open>getNext\<close> has returned to the worker, in call
  order.
\<close>

datatype 'c wpc = LoopHead | InCall 'c | Sending u64 | ReturnedErr u64 u64 | ReturnedNil

record 'c worker =
  w_pc :: "'c wpc"
  w_lastId :: u64
  w_j :: nat
  w_obs :: "u64 list"

text \<open>
  The shared service, the workers, the buffered channel \<open>idChan\<close> (its queued values, in
  the order sent) and the panic that has ended the program, if any.
\<close>

record ('s, 'c) state =
  service :: 's
  workers :: "'c worker list"
  idChan :: "u64 list"
  crashed :: "go_panic option"

text \<open>
  A run is an interleaving of steps of the goroutines, each step one access to shared
  memory, one operation of the mutex or of \<open>sync/atomic\<close>, or one channel operation. For
  the services that synchronize every access this is what Go's memory model guarantees
  (programs without data races run as some interleaving); for \<open>noSyncIdService\<close> an
  interleaving is one of the runs the racy program can have.

  One scheduling decision: worker \<open>t\<close> takes its next step (with partner \<open>k\<close> where the
  step is a channel hand-over), or goroutine \<open>k\<close> of the service takes a step of its own.
\<close>

datatype label = Work nat nat | Serve nat

definition do_call ::
  "(nat \<Rightarrow> 's \<Rightarrow> 'c option \<Rightarrow> ('s, 'c) call_result) \<Rightarrow> nat \<Rightarrow> nat \<Rightarrow> 'c option
     \<Rightarrow> ('s, 'c) state \<Rightarrow> ('s, 'c) state option" where
  "do_call call t k c s =
     (let w = workers s ! t in
      case call k (service s) c of
        Blocked \<Rightarrow> None
      | Panics p \<Rightarrow> Some (s\<lparr>crashed := Some p\<rparr>)
      | Next svc' c' \<Rightarrow>
          Some (s\<lparr>service := svc', workers := (workers s)[t := w\<lparr>w_pc := InCall c'\<rparr>]\<rparr>)
      | Return svc' v \<Rightarrow>
          Some (s\<lparr>service := svc',
                 workers := (workers s)[t := w\<lparr>w_obs := w_obs w @ [v],
                     w_pc := (if v < w_lastId w then ReturnedErr v (w_lastId w) else Sending v)\<rparr>]\<rparr>))"

text \<open>
  \<open>cap\<close> is the capacity of \<open>idChan\<close>: a send into a full channel blocks. \<open>nC\<close> is the
  number of iterations of the loop.
\<close>

definition worker_step ::
  "(nat \<Rightarrow> 's \<Rightarrow> 'c option \<Rightarrow> ('s, 'c) call_result) \<Rightarrow> nat \<Rightarrow> nat \<Rightarrow> nat \<Rightarrow> nat
     \<Rightarrow> ('s, 'c) state \<Rightarrow> ('s, 'c) state option" where
  "worker_step call cap nC t k s =
     (if t < length (workers s) then
        let w = workers s ! t in
        case w_pc w of
          LoopHead \<Rightarrow>
            if w_j w < nC then do_call call t k None s
            else Some (s\<lparr>workers := (workers s)[t := w\<lparr>w_pc := ReturnedNil\<rparr>]\<rparr>)
        | InCall c \<Rightarrow> do_call call t k (Some c) s
        | Sending v \<Rightarrow>
            if length (idChan s) < cap
            then Some (s\<lparr>idChan := idChan s @ [v],
                         workers := (workers s)[t := w\<lparr>w_pc := LoopHead, w_j := w_j w + 1\<rparr>]\<rparr>)
            else None
        | ReturnedErr g a \<Rightarrow> None
        | ReturnedNil \<Rightarrow> None
      else None)"

definition step ::
  "(nat \<Rightarrow> 's \<Rightarrow> 'c option \<Rightarrow> ('s, 'c) call_result) \<Rightarrow> (nat \<Rightarrow> 's \<Rightarrow> 's option) \<Rightarrow> nat \<Rightarrow> nat
     \<Rightarrow> label \<Rightarrow> ('s, 'c) state \<Rightarrow> ('s, 'c) state option" where
  "step call internal cap nC l s =
     (if crashed s \<noteq> None then None
      else case l of
             Work t k \<Rightarrow> worker_step call cap nC t k s
           | Serve k \<Rightarrow> map_option (\<lambda>svc'. s\<lparr>service := svc'\<rparr>) (internal k (service s)))"

text \<open>A schedule is run step by step; \<open>None\<close> when one of its steps cannot be taken.\<close>

fun exec ::
  "(nat \<Rightarrow> 's \<Rightarrow> 'c option \<Rightarrow> ('s, 'c) call_result) \<Rightarrow> (nat \<Rightarrow> 's \<Rightarrow> 's option) \<Rightarrow> nat \<Rightarrow> nat
     \<Rightarrow> label list \<Rightarrow> ('s, 'c) state \<Rightarrow> ('s, 'c) state option" where
  "exec call internal cap nC [] s = Some s"
| "exec call internal cap nC (l # ls) s =
     (case step call internal cap nC l s of
        None \<Rightarrow> None
      | Some s' \<Rightarrow> exec call internal cap nC ls s')"

text \<open>The services whose code starts no goroutine of its own.\<close>

definition no_internal :: "nat \<Rightarrow> 's \<Rightarrow> 's option" where
  "no_internal k s = None"

text \<open>
  \<open>idChan := make(chan uint64, numWorkers*numCalls)\<close>: the product is taken in \<open>int\<close>, and
  \<open>make\<close> panics on a negative size (every other size is taken to succeed). The loops
  \<open>i < numWorkers\<close> and \<open>j < numCalls\<close> compare signed values, so a negative bound gives no
  iteration.
\<close>

definition chanCap :: "go_int \<Rightarrow> go_int \<Rightarrow> nat" where
  "chanCap numWorkers numCalls = nat (sint (numWorkers * numCalls))"

definition iterations :: "go_int \<Rightarrow> nat" where
  "iterations n = nat (sint n)"

definition init :: "'s \<Rightarrow> go_int \<Rightarrow> go_int \<Rightarrow> ('s, 'c) state" where
  "init svc numWorkers numCalls =
     \<lparr>service = svc,
      workers = replicate (iterations numWorkers)
                  \<lparr>w_pc = LoopHead, w_lastId = 0, w_j = 0, w_obs = []\<rparr>,
      idChan = [],
      crashed = (if sint (numWorkers * numCalls) < 0 then Some MakeChanSizeOutOfRange else None)\<rparr>"

text \<open>\<open>eg.Wait()\<close> returns once every worker has returned.\<close>

fun returned_worker :: "'c worker \<Rightarrow> bool" where
  "returned_worker w =
     (case w_pc w of ReturnedNil \<Rightarrow> True | ReturnedErr g a \<Rightarrow> True | _ \<Rightarrow> False)"

definition finished :: "('s, 'c) state \<Rightarrow> bool" where
  "finished s = (crashed s = None \<and> list_all returned_worker (workers s))"

definition complete_run ::
  "(nat \<Rightarrow> 's \<Rightarrow> 'c option \<Rightarrow> ('s, 'c) call_result) \<Rightarrow> (nat \<Rightarrow> 's \<Rightarrow> 's option) \<Rightarrow> 's
     \<Rightarrow> go_int \<Rightarrow> go_int \<Rightarrow> label list \<Rightarrow> ('s, 'c) state \<Rightarrow> bool" where
  "complete_run call internal svc numWorkers numCalls sch s =
     (exec call internal (chanCap numWorkers numCalls) (iterations numCalls) sch
        (init svc numWorkers numCalls) = Some s \<and> finished s)"

text \<open>
  After \<open>eg.Wait()\<close>: an error of a worker fails the test; otherwise the maximum of the
  values in \<open>idChan\<close> is compared with \<open>uint64(numWorkers*numCalls)\<close>. (\<open>Wait\<close> hands back the
  error that was returned first; the model takes the one of the first worker in the list.)
\<close>

datatype verdict = Pass | Fatal_NotMonotonic u64 u64 | Fatal_MaxIncorrect go_int u64

fun worker_err :: "'c worker \<Rightarrow> (u64 \<times> u64) option" where
  "worker_err w = (case w_pc w of ReturnedErr g a \<Rightarrow> Some (g, a) | _ \<Rightarrow> None)"

definition Wait :: "'c worker list \<Rightarrow> (u64 \<times> u64) option" where
  "Wait ws = (case List.map_filter worker_err ws of [] \<Rightarrow> None | e # es \<Rightarrow> Some e)"

definition maxId :: "u64 list \<Rightarrow> u64" where
  "maxId ids = foldl (\<lambda>m x. if m < x then x else m) 0 ids"

definition verdict_of :: "go_int \<Rightarrow> go_int \<Rightarrow> ('s, 'c) state \<Rightarrow> verdict" where
  "verdict_of numWorkers numCalls s =
     (case Wait (workers s) of
        Some (g, a) \<Rightarrow> Fatal_NotMonotonic g a
      | None \<Rightarrow>
          let expectedMax = numWorkers * numCalls in
          if maxId (idChan s) \<noteq> expectedMax
          then Fatal_MaxIncorrect expectedMax (maxId (idChan s))
          else Pass)"

text \<open>
  \<open>RunService\<close> along one schedule: its verdict when the schedule is a complete run, and
  \<open>None\<close> when it is not one.
\<close>

definition RunService ::
  "(nat \<Rightarrow> 's \<Rightarrow> 'c option \<Rightarrow> ('s, 'c) call_result) \<Rightarrow> (nat \<Rightarrow> 's \<Rightarrow> 's option) \<Rightarrow> 's
     \<Rightarrow> go_int \<Rightarrow> go_int \<Rightarrow> label list \<Rightarrow> verdict option" where
  "RunService call internal svc numWorkers numCalls sch =
     (case exec call internal (chanCap numWorkers numCalls) (iterations numCalls) sch
             (init svc numWorkers numCalls) of
        None \<Rightarrow> None
      | Some s \<Rightarrow> if finished s then Some (verdict_of numWorkers numCalls s) else None)"

text \<open>All values handed out in a state, worker by worker.\<close>

definition observed :: "('s, 'c) state \<Rightarrow> u64 list" where
  "observed s = concat (map w_obs (workers s))"

text \<open>
  What each worker has been handed along a schedule, in call order (one list per worker),
  and where each worker stands after it.
\<close>

definition observations ::
  "(nat \<Rightarrow> 's \<Rightarrow> 'c option \<Rightarrow> ('s, 'c) call_result) \<Rightarrow> (nat \<Rightarrow> 's \<Rightarrow> 's option) \<Rightarrow> 's
     \<Rightarrow> go_int \<Rightarrow> go_int \<Rightarrow> label list \<Rightarrow> u64 list list option" where
  "observations call internal svc numWorkers numCalls sch =
     map_option (\<lambda>s. map w_obs (workers s))
       (exec call internal (chanCap numWorkers numCalls) (iterations numCalls) sch
          (init svc numWorkers numCalls))"

definition positions ::
  "(nat \<Rightarrow> 's \<Rightarrow> 'c option \<Rightarrow> ('s, 'c) call_result) \<Rightarrow> (nat \<Rightarrow> 's \<Rightarrow> 's option) \<Rightarrow> 's
     \<Rightarrow> go_int \<Rightarrow> go_int \<Rightarrow> label list \<Rightarrow> 'c wpc list option" where
  "positions call internal svc numWorkers numCalls sch =
     map_option (\<lambda>s. map w_pc (workers s))
       (exec call internal (chanCap numWorkers numCalls) (iterations numCalls) sch
          (init svc numWorkers numCalls))"

subsection \<open>A second call to \<open>Start\<close>, and a scripted service\<close>

text \<open>
  The test's \<open>setup\<close> builds its \<open>goroutines\<close> case with
  \<^verbatim>\<open>service := MakeGoroutineIdService(); service.Start()\<close>:
  \<open>Start\<close> runs a second time on the service the constructor has started already.
\<close>

definition setup_goroutines :: goroutineIdService where
  "setup_goroutines = Start MakeGoroutineIdService"

text \<open>The serving goroutines of a service that have not returned.\<close>

definition active :: "goroutineIdService \<Rightarrow> nat" where
  "active s = length (filter (\<lambda>ow. o_pc ow \<noteq> Stopped) (owners s))"

text \<open>
  The states the program can bring a \<open>goroutineIdService\<close> into: the one the constructor
  returns, and from any of them the one after a call to \<open>Start\<close>, after a \<open>Stop\<close> that
  does not panic, after a step of a serving goroutine, and after a step of a call to
  \<open>getNext\<close> (by any caller, at any point of its call).
\<close>

inductive reachable :: "goroutineIdService \<Rightarrow> bool" where
  r_Make: "reachable MakeGoroutineIdService"
| r_Start: "reachable s \<Longrightarrow> reachable (Start s)"
| r_Stop: "reachable s \<Longrightarrow> Stop s = Inr s' \<Longrightarrow> reachable s'"
| r_owner: "reachable s \<Longrightarrow> goroutine_internal k s = Some s' \<Longrightarrow> reachable s'"
| r_Next: "reachable s \<Longrightarrow> goroutine_call k s c = Next s' c' \<Longrightarrow> reachable s'"
| r_Return: "reachable s \<Longrightarrow> goroutine_call k s c = Return s' v \<Longrightarrow> reachable s'"

text \<open>
  \<open>RunService\<close> takes any \<open>idService\<close>. This one hands out the values of a fixed list in
  order, one per call, each in one indivisible step; it is none of the four services of the
  repository and serves to exercise the validator.
\<close>

fun scripted_call :: "nat \<Rightarrow> u64 list \<Rightarrow> unit option \<Rightarrow> (u64 list, unit) call_result" where
  "scripted_call k (v # vs) None = Return vs v"
| "scripted_call k [] None = Blocked"
| "scripted_call k vs (Some u) = Blocked"

text \<open>The values of every possible result, read as natural numbers.\<close>

definition returned_nats :: "(failure + u64 list \<times> 's) list \<Rightarrow> (failure + nat list) list" where
  "returned_nats rs = map (map_sum (\<lambda>e. e) (\<lambda>r. map unat (fst r))) rs"

section \<open>Invariants of a run\<close>

text \<open>
  Worker \<open>w\<close> is about to take a step of \<open>getNext\<close>: the first one (\<open>None\<close>, from the loop
  head with an iteration left) or the one after the point \<open>c\<close> it has reached.
\<close>

fun at_call :: "nat \<Rightarrow> 'c worker \<Rightarrow> 'c option \<Rightarrow> bool" where
  "at_call nC w c =
     (case w_pc w of
        LoopHead \<Rightarrow> w_j w < nC \<and> c = None
      | InCall c0 \<Rightarrow> c = Some c0
      | _ \<Rightarrow> False)"

text \<open>
  What the loop keeps true of a worker: \<open>lastId\<close> is still \<open>0\<close>, \<open>j\<close> counts the values
  sent, and \<open>w_obs\<close> holds one value more than that exactly while a value waits to be sent.
  With \<open>lastId = 0\<close> the test \<open>id < lastId\<close> never holds, so no worker returns the error.
\<close>

fun worker_ok :: "nat \<Rightarrow> 'c worker \<Rightarrow> bool" where
  "worker_ok nC w =
     (w_lastId w = 0 \<and> w_j w \<le> nC \<and>
      (case w_pc w of
         LoopHead \<Rightarrow> length (w_obs w) = w_j w
       | InCall c \<Rightarrow> length (w_obs w) = w_j w \<and> w_j w < nC
       | Sending v \<Rightarrow> length (w_obs w) = Suc (w_j w) \<and> w_j w < nC
       | ReturnedErr g a \<Rightarrow> False
       | ReturnedNil \<Rightarrow> length (w_obs w) = w_j w \<and> w_j w = nC))"

definition harness_inv :: "nat \<Rightarrow> nat \<Rightarrow> ('s, 'c) state \<Rightarrow> bool" where
  "harness_inv cap nC s =
     ((\<forall>w\<in>set (workers s). worker_ok nC w) \<and>
      sum_list (map w_j (workers s)) = length (idChan s) \<and>
      length (idChan s) \<le> cap)"

text \<open>
  The values handed out so far are \<open>1, 2, ...\<close> up to their number, each once, and every
  worker has received its values in strictly increasing order.
\<close>

definition vals_inv :: "('s, 'c) state \<Rightarrow> bool" where
  "vals_inv s =
     (mset (observed s) = mset (map of_nat [1..<Suc (length (observed s))]) \<and>
      (\<forall>w\<in>set (workers s).
          sorted_wrt (<) (w_obs w) \<and> (\<forall>x\<in>set (w_obs w). unat x \<le> length (observed s))))"

definition in_call :: "'c worker \<Rightarrow> bool" where
  "in_call w = (\<exists>c. w_pc w = InCall c)"

text \<open>At most one worker is inside \<open>getNext\<close>.\<close>

definition one_caller :: "('s, 'c) state \<Rightarrow> bool" where
  "one_caller s =
     (\<forall>t<length (workers s). \<forall>t'<length (workers s).
         in_call (workers s ! t) \<longrightarrow> in_call (workers s ! t') \<longrightarrow> t' = t)"

text \<open>\<open>atomicIdService\<close>: the counter is the number of values handed out.\<close>

definition atomic_inv :: "(atomicIdService, unit) state \<Rightarrow> bool" where
  "atomic_inv s =
     (at_id (service s) = of_nat (length (observed s)) \<and>
      (\<forall>w\<in>set (workers s). \<forall>c. w_pc w \<noteq> InCall c))"

text \<open>
  \<open>mutexIdService\<close>: a worker inside \<open>getNext\<close> holds the mutex and is the only one
  inside; the counter and the holder's local values follow the holder's position.
\<close>

fun holder_ok :: "mutexIdService \<Rightarrow> nat \<Rightarrow> mutex_pc \<Rightarrow> bool" where
  "holder_ok i R MutexHeld = (mu_id i = of_nat R)"
| "holder_ok i R (MutexLoaded x) = (x = of_nat R \<and> mu_id i = of_nat R)"
| "holder_ok i R MutexStored = (mu_id i = of_nat (Suc R))"
| "holder_ok i R (MutexReturning v) = (v = of_nat (Suc R) \<and> mu_id i = of_nat (Suc R))"

definition mutex_inv :: "(mutexIdService, mutex_pc) state \<Rightarrow> bool" where
  "mutex_inv s =
     ((\<not> mu_locked (service s) \<longrightarrow> mu_id (service s) = of_nat (length (observed s))) \<and>
      (\<forall>t<length (workers s). \<forall>c. w_pc (workers s ! t) = InCall c \<longrightarrow>
          mu_locked (service s) \<and> holder_ok (service s) (length (observed s)) c) \<and>
      one_caller s)"

text \<open>
  \<open>goroutineIdService\<close> as \<open>MakeGoroutineIdService\<close> returns it: one serving goroutine,
  \<open>requests\<close> open, and the goroutine's \<open>id\<close> follows its position in the loop.
\<close>

definition goroutine_inv :: "(goroutineIdService, goroutine_pc) state \<Rightarrow> bool" where
  "goroutine_inv s =
     (\<not> requests_closed (service s) \<and> length (owners (service s)) = 1 \<and> one_caller s \<and>
      (case o_pc (owners (service s) ! 0) of
         Listening \<Rightarrow>
           o_id (owners (service s) ! 0) = of_nat (length (observed s)) \<and>
           (\<forall>t<length (workers s). \<not> in_call (workers s ! t))
       | Incrementing \<Rightarrow> o_id (owners (service s) ! 0) = of_nat (length (observed s))
       | Responding \<Rightarrow> o_id (owners (service s) ! 0) = of_nat (Suc (length (observed s)))
       | Stopped \<Rightarrow> False))"

text \<open>\<open>noSyncIdService\<close> used by one worker only.\<close>

fun noSync_ok :: "noSyncIdService \<Rightarrow> nat \<Rightarrow> noSync_pc wpc \<Rightarrow> bool" where
  "noSync_ok i R (InCall (NoSyncLoaded x)) = (x = of_nat R \<and> ns_id i = of_nat R)"
| "noSync_ok i R (InCall NoSyncStored) = (ns_id i = of_nat (Suc R))"
| "noSync_ok i R p = (ns_id i = of_nat R)"

definition noSync_solo_inv :: "(noSyncIdService, noSync_pc) state \<Rightarrow> bool" where
  "noSync_solo_inv s =
     (length (workers s) = 1 \<and>
      noSync_ok (service s) (length (observed s)) (w_pc (workers s ! 0)))"

section \<open>A call run alone\<close>

text \<open>
  Run without interruption, the steps of each \<open>getNext\<close> compose to its sequential reading:
  the same value is returned and the same service is left behind.
\<close>

lemma noSync_call_alone:
  "noSync_call k i None = Next i (NoSyncLoaded (ns_id i)) \<and>
   noSync_call k i (Some (NoSyncLoaded (ns_id i))) = Next (i\<lparr>ns_id := ns_id i + 1\<rparr>) NoSyncStored \<and>
   noSync_call k (i\<lparr>ns_id := ns_id i + 1\<rparr>) (Some NoSyncStored)
     = Return (snd (noSync_getNext i)) (fst (noSync_getNext i))"
  by (simp add: noSync_getNext_def Let_def)

lemma atomic_call_alone:
  "atomic_call k i None = Return (snd (atomic_getNext i)) (fst (atomic_getNext i))"
  by (simp add: atomic_getNext_def Let_def)

lemma mutex_call_alone:
  "\<not> mu_locked i \<Longrightarrow>
     mutex_call k i None = Next (i\<lparr>mu_locked := True\<rparr>) MutexHeld \<and>
     mutex_call k (i\<lparr>mu_locked := True\<rparr>) (Some MutexHeld)
       = Next (i\<lparr>mu_locked := True\<rparr>) (MutexLoaded (mu_id i)) \<and>
     mutex_call k (i\<lparr>mu_locked := True\<rparr>) (Some (MutexLoaded (mu_id i)))
       = Next (i\<lparr>mu_locked := True, mu_id := mu_id i + 1\<rparr>) MutexStored \<and>
     mutex_call k (i\<lparr>mu_locked := True, mu_id := mu_id i + 1\<rparr>) (Some MutexStored)
       = Next (i\<lparr>mu_locked := True, mu_id := mu_id i + 1\<rparr>) (MutexReturning (mu_id i + 1)) \<and>
     (case mutex_getNext i of
        Returns v i' \<Rightarrow>
          mutex_call k (i\<lparr>mu_locked := True, mu_id := mu_id i + 1\<rparr>)
            (Some (MutexReturning (mu_id i + 1))) = Return i' v
      | Fails e \<Rightarrow> False)"
  by (simp add: mutex_getNext_def Let_def)

lemma mutex_call_alone_locked:
  "mu_locked i \<Longrightarrow> mutex_call k i None = Blocked \<and> mutex_getNext i = Fails BlocksForever"
  by (simp add: mutex_getNext_def)

lemma goroutine_call_alone:
  assumes "\<not> requests_closed s" and "k < length (owners s)" and "o_pc (owners s ! k) = Listening"
  shows "\<exists>s1 s2. goroutine_call k s None = Next s1 AwaitResponse \<and>
           goroutine_internal k s1 = Some s2 \<and>
           (case serve k s of
              Returns v s3 \<Rightarrow> goroutine_call k s2 (Some AwaitResponse) = Return s3 v
            | Fails e \<Rightarrow> False)"
proof -
  let ?s1 = "s\<lparr>owners := (owners s)[k := (owners s ! k)\<lparr>o_pc := Incrementing\<rparr>]\<rparr>"
  let ?s2 = "s\<lparr>owners := (owners s)[k := (owners s ! k)\<lparr>o_id := o_id (owners s ! k) + 1,
               o_pc := Responding\<rparr>]\<rparr>"
  have "goroutine_call k s None = Next ?s1 AwaitResponse" using assms by simp
  moreover have "goroutine_internal k ?s1 = Some ?s2"
    using assms by (simp add: goroutine_internal_def)
  moreover have "case serve k s of
              Returns v s3 \<Rightarrow> goroutine_call k ?s2 (Some AwaitResponse) = Return s3 v
            | Fails e \<Rightarrow> False"
  proof -
    have eq: "(owners s ! k)\<lparr>o_id := x, o_pc := Listening\<rparr> = (owners s ! k)\<lparr>o_id := x\<rparr>"
      for x using assms(3) by (cases "owners s ! k") simp
    show ?thesis using assms(2) by (simp add: serve_def Let_def eq)
  qed
  ultimately show ?thesis by blast
qed

section \<open>The steps of a run\<close>

lemma step_cases [consumes 1, case_names Serve Next Return Panic Send Exit]:
  assumes "step call internal cap nC l s = Some s'"
  obtains
    (Serve) k svc' where "l = Serve k" "crashed s = None" "internal k (service s) = Some svc'"
      "s' = s\<lparr>service := svc'\<rparr>"
  | (Next) t k c svc' c' where "l = Work t k" "crashed s = None" "t < length (workers s)"
      "at_call nC (workers s ! t) c" "call k (service s) c = Next svc' c'"
      "s' = s\<lparr>service := svc',
              workers := (workers s)[t := (workers s ! t)\<lparr>w_pc := InCall c'\<rparr>]\<rparr>"
  | (Return) t k c svc' v where "l = Work t k" "crashed s = None" "t < length (workers s)"
      "at_call nC (workers s ! t) c" "call k (service s) c = Return svc' v"
      "s' = s\<lparr>service := svc',
              workers := (workers s)[t := (workers s ! t)\<lparr>w_obs := w_obs (workers s ! t) @ [v],
                 w_pc := (if v < w_lastId (workers s ! t)
                          then ReturnedErr v (w_lastId (workers s ! t)) else Sending v)\<rparr>]\<rparr>"
  | (Panic) t k c p where "l = Work t k" "crashed s = None" "t < length (workers s)"
      "at_call nC (workers s ! t) c" "call k (service s) c = Panics p"
      "s' = s\<lparr>crashed := Some p\<rparr>"
  | (Send) t k v where "l = Work t k" "crashed s = None" "t < length (workers s)"
      "w_pc (workers s ! t) = Sending v" "length (idChan s) < cap"
      "s' = s\<lparr>idChan := idChan s @ [v],
              workers := (workers s)[t := (workers s ! t)\<lparr>w_pc := LoopHead,
                 w_j := w_j (workers s ! t) + 1\<rparr>]\<rparr>"
  | (Exit) t k where "l = Work t k" "crashed s = None" "t < length (workers s)"
      "w_pc (workers s ! t) = LoopHead" "\<not> w_j (workers s ! t) < nC"
      "s' = s\<lparr>workers := (workers s)[t := (workers s ! t)\<lparr>w_pc := ReturnedNil\<rparr>]\<rparr>"
proof (cases l)
  case (Serve k)
  with assms show ?thesis
    by (auto simp: step_def split: if_splits intro: that(1))
next
  case (Work t k)
  from assms Work have cr: "crashed s = None" and ws: "worker_step call cap nC t k s = Some s'"
    by (auto simp: step_def split: if_splits)
  from ws have t: "t < length (workers s)"
    by (auto simp: worker_step_def split: if_splits)
  show ?thesis
  proof (cases "w_pc (workers s ! t)")
    case LoopHead
    show ?thesis
    proof (cases "w_j (workers s ! t) < nC")
      case True
      with ws t LoopHead have dc: "do_call call t k None s = Some s'"
        by (simp add: worker_step_def Let_def)
      have ac: "at_call nC (workers s ! t) None" using LoopHead True by simp
      from dc show ?thesis
        by (cases "call k (service s) None")
           (auto simp: do_call_def Let_def intro: that(2)[OF Work cr t ac] that(3)[OF Work cr t ac]
              that(4)[OF Work cr t ac])
    next
      case False
      with ws t LoopHead show ?thesis
        by (auto simp: worker_step_def Let_def intro: that(6)[OF Work cr t])
    qed
  next
    case (InCall c0)
    with ws t have dc: "do_call call t k (Some c0) s = Some s'"
      by (simp add: worker_step_def Let_def)
    have ac: "at_call nC (workers s ! t) (Some c0)" using InCall by simp
    from dc show ?thesis
      by (cases "call k (service s) (Some c0)")
         (auto simp: do_call_def Let_def intro: that(2)[OF Work cr t ac] that(3)[OF Work cr t ac]
            that(4)[OF Work cr t ac])
  next
    case (Sending v)
    with ws t show ?thesis
      by (auto simp: worker_step_def Let_def split: if_splits intro: that(5)[OF Work cr t])
  next
    case (ReturnedErr g a)
    with ws t show ?thesis by (simp add: worker_step_def Let_def)
  next
    case ReturnedNil
    with ws t show ?thesis by (simp add: worker_step_def Let_def)
  qed
qed

section \<open>Auxiliary facts about lists and words\<close>

lemma map_update_same: "f y = f (xs ! t) \<Longrightarrow> map f (xs[t := y]) = map f xs"
  by (induction xs arbitrary: t) (auto split: nat.splits)

lemma sum_list_map_update:
  "t < length xs \<Longrightarrow> sum_list (map f (xs[t := y])) + f (xs ! t) = sum_list (map f xs) + (f y :: nat)"
  by (induction xs arbitrary: t) (auto split: nat.splits)

lemma mset_concat_map_update:
  "t < length xs \<Longrightarrow>
     mset (concat (map f (xs[t := y]))) + mset (f (xs ! t)) = mset (concat (map f xs)) + mset (f y)"
  by (induction xs arbitrary: t) (auto split: nat.splits)

lemma length_concat_map_update:
  "t < length xs \<Longrightarrow>
     length (concat (map f (xs[t := y]))) + length (f (xs ! t))
       = length (concat (map f xs)) + length (f y)"
  by (induction xs arbitrary: t) (auto split: nat.splits)

lemma Ball_set_update:
  "\<forall>x\<in>set xs. P x \<Longrightarrow> P y \<Longrightarrow> \<forall>x\<in>set (xs[t := y]). P x"
  using set_update_subset_insert[of xs t y] by auto

lemma sum_list_le_plus_length:
  "\<forall>x\<in>set xs. g x \<le> f x + (1::nat) \<Longrightarrow> sum_list (map g xs) \<le> sum_list (map f xs) + length xs"
  by (induction xs) auto

subsection \<open>What the loop of a worker maintains\<close>

lemma worker_ok_Next:
  "worker_ok nC w \<Longrightarrow> at_call nC w c \<Longrightarrow> worker_ok nC (w\<lparr>w_pc := InCall c'\<rparr>)"
  by (cases "w_pc w") simp_all

lemma worker_ok_Return:
  "worker_ok nC w \<Longrightarrow> at_call nC w c \<Longrightarrow>
     worker_ok nC (w\<lparr>w_obs := w_obs w @ [v],
        w_pc := (if v < w_lastId w then ReturnedErr v (w_lastId w) else Sending v)\<rparr>)"
  by (cases "w_pc w") simp_all

lemma worker_ok_Send:
  "worker_ok nC w \<Longrightarrow> w_pc w = Sending v \<Longrightarrow>
     worker_ok nC (w\<lparr>w_pc := LoopHead, w_j := w_j w + 1\<rparr>)"
  by simp

lemma worker_ok_Exit:
  "worker_ok nC w \<Longrightarrow> w_pc w = LoopHead \<Longrightarrow> \<not> w_j w < nC \<Longrightarrow>
     worker_ok nC (w\<lparr>w_pc := ReturnedNil\<rparr>)"
  by simp

lemma worker_ok_length: "worker_ok nC w \<Longrightarrow> length (w_obs w) \<le> w_j w + 1"
  by (cases "w_pc w") simp_all

lemma harness_inv_nth:
  "harness_inv cap nC s \<Longrightarrow> t < length (workers s) \<Longrightarrow> worker_ok nC (workers s ! t)"
  by (simp add: harness_inv_def)

lemma harness_inv_update:
  assumes inv: "harness_inv cap nC s" and t: "t < length (workers s)"
    and ok: "worker_ok nC w'" and j: "w_j w' = w_j (workers s ! t)"
    and ws: "workers s' = (workers s)[t := w']" and ch: "idChan s' = idChan s"
  shows "harness_inv cap nC s'"
proof -
  have "\<forall>w\<in>set (workers s). worker_ok nC w" using inv unfolding harness_inv_def by blast
  then have a: "\<forall>w\<in>set (workers s'). worker_ok nC w"
    unfolding ws using ok by (rule Ball_set_update)
  have b: "map w_j (workers s') = map w_j (workers s)"
    unfolding ws using j by (rule map_update_same)
  from inv have c: "sum_list (map w_j (workers s)) = length (idChan s)" "length (idChan s) \<le> cap"
    unfolding harness_inv_def by blast+
  show ?thesis unfolding harness_inv_def using a b c ch by metis
qed

lemma harness_inv_step:
  assumes "step call internal cap nC l s = Some s'" and inv: "harness_inv cap nC s"
  shows "harness_inv cap nC s'"
  using assms(1)
proof (cases rule: step_cases)
  case (Serve k svc')
  from inv show ?thesis unfolding Serve(4) harness_inv_def by simp
next
  case (Next t k c svc' c')
  have "worker_ok nC ((workers s ! t)\<lparr>w_pc := InCall c'\<rparr>)"
    using harness_inv_nth[OF inv Next(3)] Next(4) by (rule worker_ok_Next)
  then show ?thesis
    by (rule harness_inv_update[OF inv Next(3)]) (simp_all add: Next(6))
next
  case (Return t k c svc' v)
  have "worker_ok nC ((workers s ! t)\<lparr>w_obs := w_obs (workers s ! t) @ [v],
                 w_pc := (if v < w_lastId (workers s ! t)
                          then ReturnedErr v (w_lastId (workers s ! t)) else Sending v)\<rparr>)"
    using harness_inv_nth[OF inv Return(3)] Return(4) by (rule worker_ok_Return)
  then show ?thesis
    by (rule harness_inv_update[OF inv Return(3)]) (simp_all add: Return(6))
next
  case (Panic t k c p)
  from inv show ?thesis unfolding Panic(6) harness_inv_def by simp
next
  case (Send t k v)
  let ?w' = "(workers s ! t)\<lparr>w_pc := LoopHead, w_j := w_j (workers s ! t) + 1\<rparr>"
  have ws: "workers s' = (workers s)[t := ?w']" and ch: "idChan s' = idChan s @ [v]"
    by (simp_all add: Send(6))
  have ok': "worker_ok nC ?w'"
    using harness_inv_nth[OF inv Send(3)] Send(4) by (rule worker_ok_Send)
  have "\<forall>w\<in>set (workers s). worker_ok nC w" using inv unfolding harness_inv_def by blast
  then have a: "\<forall>w\<in>set (workers s'). worker_ok nC w"
    unfolding ws using ok' by (rule Ball_set_update)
  have "sum_list (map w_j ((workers s)[t := ?w'])) + w_j (workers s ! t)
          = sum_list (map w_j (workers s)) + w_j ?w'"
    using Send(3) by (rule sum_list_map_update)
  then have b: "sum_list (map w_j (workers s')) = Suc (sum_list (map w_j (workers s)))"
    unfolding ws by simp
  from inv have c: "sum_list (map w_j (workers s)) = length (idChan s)"
    unfolding harness_inv_def by blast
  show ?thesis unfolding harness_inv_def using a b c ch Send(5) by simp
next
  case (Exit t k)
  have "worker_ok nC ((workers s ! t)\<lparr>w_pc := ReturnedNil\<rparr>)"
    using harness_inv_nth[OF inv Exit(3)] Exit(4,5) by (rule worker_ok_Exit)
  then show ?thesis
    by (rule harness_inv_update[OF inv Exit(3)]) (simp_all add: Exit(6))
qed

lemma observed_bound:
  assumes "harness_inv cap nC s"
  shows "length (observed s) \<le> cap + length (workers s)"
proof -
  have "\<forall>w\<in>set (workers s). worker_ok nC w" using assms unfolding harness_inv_def by blast
  then have "\<forall>w\<in>set (workers s). length (w_obs w) \<le> w_j w + 1"
    using worker_ok_length by blast
  then have "sum_list (map (\<lambda>w. length (w_obs w)) (workers s))
               \<le> sum_list (map w_j (workers s)) + length (workers s)"
    by (rule sum_list_le_plus_length)
  moreover have "length (observed s) = sum_list (map (\<lambda>w. length (w_obs w)) (workers s))"
    by (simp add: observed_def length_concat comp_def)
  moreover have "sum_list (map w_j (workers s)) \<le> cap"
    using assms unfolding harness_inv_def by simp
  ultimately show ?thesis by linarith
qed

subsection \<open>The values handed out\<close>

lemma unat_of_nat_u64: "n < 2 ^ 64 \<Longrightarrow> unat (of_nat n :: u64) = n"
  by (simp add: unat_of_nat)

lemma observed_keep:
  assumes "w_obs w' = w_obs (workers s ! t)" and "workers s' = (workers s)[t := w']"
  shows "observed s' = observed s"
proof -
  have "map w_obs ((workers s)[t := w']) = map w_obs (workers s)"
    using assms(1) by (rule map_update_same)
  then show ?thesis by (simp add: observed_def assms(2))
qed

lemma vals_inv_keep:
  assumes v: "vals_inv s" and t: "t < length (workers s)"
    and obs: "w_obs w' = w_obs (workers s ! t)" and ws: "workers s' = (workers s)[t := w']"
  shows "vals_inv s'"
proof -
  let ?P = "\<lambda>w. sorted_wrt (<) (w_obs w) \<and> (\<forall>x\<in>set (w_obs w). unat x \<le> length (observed s))"
  have o: "observed s' = observed s" using obs ws by (rule observed_keep)
  have all: "\<forall>w\<in>set (workers s). ?P w" using v unfolding vals_inv_def by blast
  moreover have "?P (workers s ! t)" using all nth_mem[OF t] by blast
  then have "?P w'" using obs by simp
  ultimately have "\<forall>w\<in>set ((workers s)[t := w']). ?P w" by (rule Ball_set_update)
  then show ?thesis using v unfolding vals_inv_def o ws by blast
qed

lemma vals_inv_same:
  assumes "vals_inv s" and "workers s' = workers s"
  shows "vals_inv s'"
  using assms unfolding vals_inv_def observed_def by simp

lemma vals_inv_Return:
  assumes v: "vals_inv s" and t: "t < length (workers s)"
    and obs: "w_obs w' = w_obs (workers s ! t) @ [x]" and ws: "workers s' = (workers s)[t := w']"
    and x: "x = of_nat (Suc (length (observed s)))"
    and bound: "Suc (length (observed s)) < 2 ^ 64"
  shows "vals_inv s'"
proof -
  let ?R = "length (observed s)"
  let ?P = "\<lambda>w. sorted_wrt (<) (w_obs w) \<and> (\<forall>y\<in>set (w_obs w). unat y \<le> Suc ?R)"
  have ux: "unat x = Suc ?R" using bound unfolding x by (rule unat_of_nat_u64)
  have "length (concat (map w_obs ((workers s)[t := w']))) + length (w_obs (workers s ! t))
          = length (concat (map w_obs (workers s))) + length (w_obs w')"
    using t by (rule length_concat_map_update)
  then have len: "length (observed s') = Suc ?R"
    by (simp add: observed_def ws obs)
  have "mset (concat (map w_obs ((workers s)[t := w']))) + mset (w_obs (workers s ! t))
          = mset (concat (map w_obs (workers s))) + mset (w_obs w')"
    using t by (rule mset_concat_map_update)
  then have "mset (observed s') = mset (observed s) + {#x#}"
    by (simp add: observed_def ws obs)
  also have "mset (observed s) = mset (map of_nat [1..<Suc ?R])"
    using v unfolding vals_inv_def by blast
  finally have m: "mset (observed s') = mset (map of_nat [1..<Suc (Suc ?R)])"
    by (simp add: x)
  have old: "\<forall>w\<in>set (workers s). sorted_wrt (<) (w_obs w) \<and> (\<forall>y\<in>set (w_obs w). unat y \<le> ?R)"
    using v unfolding vals_inv_def by blast
  then have all: "\<forall>w\<in>set (workers s). ?P w" by fastforce
  have wt: "sorted_wrt (<) (w_obs (workers s ! t))" "\<forall>y\<in>set (w_obs (workers s ! t)). unat y \<le> ?R"
    using old nth_mem[OF t] by blast+
  have "\<forall>y\<in>set (w_obs (workers s ! t)). y < x"
    using wt(2) ux by (auto simp: word_less_nat_alt less_Suc_eq_le)
  moreover have "\<forall>y\<in>set (w_obs (workers s ! t)). unat y \<le> Suc ?R"
    using wt(2) by fastforce
  ultimately have "?P w'" using wt(1) ux by (simp add: obs sorted_wrt_append)
  with all have "\<forall>w\<in>set ((workers s)[t := w']). ?P w" by (rule Ball_set_update)
  then show ?thesis unfolding vals_inv_def len ws using m unfolding len by blast
qed

lemma vals_inv_step:
  assumes st: "step call internal cap nC l s = Some s'"
    and v: "vals_inv s" and h': "harness_inv cap nC s'"
    and bound: "cap + length (workers s) < 2 ^ 64"
    and ret: "\<And>t k c svc' x. t < length (workers s) \<Longrightarrow> at_call nC (workers s ! t) c \<Longrightarrow>
                call k (service s) c = Return svc' x \<Longrightarrow> x = of_nat (Suc (length (observed s)))"
  shows "vals_inv s'"
  using st
proof (cases rule: step_cases)
  case (Serve k svc')
  show ?thesis by (rule vals_inv_same[OF v]) (simp add: Serve(4))
next
  case (Next t k c svc' c')
  show ?thesis by (rule vals_inv_keep[OF v Next(3)]) (simp_all add: Next(6))
next
  case (Return t k c svc' x)
  have x: "x = of_nat (Suc (length (observed s)))" using Return(3,4,5) by (rule ret)
  have ws: "workers s' = (workers s)[t := (workers s ! t)\<lparr>w_obs := w_obs (workers s ! t) @ [x],
                 w_pc := (if x < w_lastId (workers s ! t)
                          then ReturnedErr x (w_lastId (workers s ! t)) else Sending x)\<rparr>]"
    by (simp add: Return(6))
  have "length (concat (map w_obs (workers s'))) + length (w_obs (workers s ! t))
          = length (concat (map w_obs (workers s))) + length (w_obs (workers s ! t) @ [x])"
    unfolding ws using length_concat_map_update[OF Return(3), of w_obs] by simp
  then have "length (observed s') = Suc (length (observed s))"
    by (simp add: observed_def)
  moreover have "length (observed s') \<le> cap + length (workers s')"
    using h' by (rule observed_bound)
  moreover have "length (workers s') = length (workers s)" by (simp add: ws)
  ultimately have b: "Suc (length (observed s)) < 2 ^ 64" using bound by simp
  show ?thesis by (rule vals_inv_Return[OF v Return(3) _ ws x b]) simp
next
  case (Panic t k c p)
  show ?thesis by (rule vals_inv_same[OF v]) (simp add: Panic(6))
next
  case (Send t k x)
  show ?thesis by (rule vals_inv_keep[OF v Send(3)]) (simp_all add: Send(6))
next
  case (Exit t k)
  show ?thesis by (rule vals_inv_keep[OF v Exit(3)]) (simp_all add: Exit(6))
qed

lemma step_length:
  assumes "step call internal cap nC l s = Some s'"
  shows "length (workers s') = length (workers s)"
  using assms by (cases rule: step_cases) simp_all

lemma exec_invariant:
  assumes stp: "\<And>l s s'. I s \<Longrightarrow> step call internal cap nC l s = Some s' \<Longrightarrow> I s'"
  shows "I s \<Longrightarrow> exec call internal cap nC sch s = Some s' \<Longrightarrow> I s'"
proof (induction sch arbitrary: s)
  case Nil
  then show ?case by simp
next
  case (Cons l ls)
  from Cons.prems(2) obtain s1 where s1: "step call internal cap nC l s = Some s1"
    and rest: "exec call internal cap nC ls s1 = Some s'"
    by (auto split: option.splits)
  from Cons.prems(1) s1 have "I s1" by (rule stp)
  then show ?case using rest by (rule Cons.IH)
qed

lemma observed_Return:
  assumes t: "t < length (workers s)"
    and obs: "w_obs w' = w_obs (workers s ! t) @ [x]" and ws: "workers s' = (workers s)[t := w']"
  shows "length (observed s') = Suc (length (observed s))"
proof -
  have "length (concat (map w_obs ((workers s)[t := w']))) + length (w_obs (workers s ! t))
          = length (concat (map w_obs (workers s))) + length (w_obs w')"
    using t by (rule length_concat_map_update)
  then show ?thesis by (simp add: observed_def ws obs)
qed

subsection \<open>atomicIdService\<close>

lemma atomic_ret:
  assumes "atomic_inv s" and "atomic_call k (service s) c = Return svc' x"
  shows "x = of_nat (Suc (length (observed s)))" and "at_id svc' = of_nat (Suc (length (observed s)))"
  using assms by (cases c; simp add: atomic_inv_def atomic_getNext_def Let_def; fastforce)+

lemma atomic_inv_step:
  assumes st: "step atomic_call no_internal cap nC l s = Some s'" and inv: "atomic_inv s"
  shows "atomic_inv s'"
  using st
proof (cases rule: step_cases)
  case (Serve k svc')
  then show ?thesis by (simp add: no_internal_def)
next
  case (Next t k c svc' c')
  then show ?thesis by (cases c) (simp_all add: atomic_getNext_def Let_def)
next
  case (Return t k c svc' x)
  let ?w' = "(workers s ! t)\<lparr>w_obs := w_obs (workers s ! t) @ [x],
                 w_pc := (if x < w_lastId (workers s ! t)
                          then ReturnedErr x (w_lastId (workers s ! t)) else Sending x)\<rparr>"
  have ws: "workers s' = (workers s)[t := ?w']" and sv: "service s' = svc'"
    by (simp_all add: Return(6))
  have len: "length (observed s') = Suc (length (observed s))"
    by (rule observed_Return[OF Return(3) _ ws]) simp
  have "\<forall>w\<in>set (workers s). \<forall>c. w_pc w \<noteq> InCall c" using inv unfolding atomic_inv_def by blast
  moreover have "\<forall>c. w_pc ?w' \<noteq> InCall c" by simp
  ultimately have "\<forall>w\<in>set (workers s'). \<forall>c. w_pc w \<noteq> InCall c"
    unfolding ws by (rule Ball_set_update)
  then show ?thesis
    unfolding atomic_inv_def len sv using atomic_ret(2)[OF inv Return(5)] by blast
next
  case (Panic t k c p)
  then show ?thesis by (cases c) (simp_all add: atomic_getNext_def Let_def)
next
  case (Send t k x)
  let ?w' = "(workers s ! t)\<lparr>w_pc := LoopHead, w_j := w_j (workers s ! t) + 1\<rparr>"
  have ws: "workers s' = (workers s)[t := ?w']" and sv: "service s' = service s"
    by (simp_all add: Send(6))
  have o: "observed s' = observed s" by (rule observed_keep[OF _ ws]) simp
  have "\<forall>w\<in>set (workers s). \<forall>c. w_pc w \<noteq> InCall c" using inv unfolding atomic_inv_def by blast
  moreover have "\<forall>c. w_pc ?w' \<noteq> InCall c" by simp
  ultimately have "\<forall>w\<in>set (workers s'). \<forall>c. w_pc w \<noteq> InCall c"
    unfolding ws by (rule Ball_set_update)
  then show ?thesis using inv unfolding atomic_inv_def o sv by blast
next
  case (Exit t k)
  let ?w' = "(workers s ! t)\<lparr>w_pc := ReturnedNil\<rparr>"
  have ws: "workers s' = (workers s)[t := ?w']" and sv: "service s' = service s"
    by (simp_all add: Exit(6))
  have o: "observed s' = observed s" by (rule observed_keep[OF _ ws]) simp
  have "\<forall>w\<in>set (workers s). \<forall>c. w_pc w \<noteq> InCall c" using inv unfolding atomic_inv_def by blast
  moreover have "\<forall>c. w_pc ?w' \<noteq> InCall c" by simp
  ultimately have "\<forall>w\<in>set (workers s'). \<forall>c. w_pc w \<noteq> InCall c"
    unfolding ws by (rule Ball_set_update)
  then show ?thesis using inv unfolding atomic_inv_def o sv by blast
qed

subsection \<open>From the invariants to the result of a complete run\<close>

lemma unat_upto:
  assumes n: "n < 2 ^ 64"
  shows "map unat (map (of_nat :: nat \<Rightarrow> u64) [m..<Suc n]) = [m..<Suc n]"
proof -
  have "map (\<lambda>k. unat (of_nat k :: u64)) [m..<Suc n] = [m..<Suc n]"
  proof (rule map_idI)
    fix k assume "k \<in> set [m..<Suc n]"
    then have "k < 2 ^ 64" using n by auto
    then show "unat (of_nat k :: u64) = k" by (rule unat_of_nat_u64)
  qed
  then show ?thesis by (simp add: comp_def)
qed

lemma sum_list_const: "\<forall>x\<in>set xs. f x = (c::nat) \<Longrightarrow> sum_list (map f xs) = length xs * c"
  by (induction xs) auto

lemma worker_ok_returned:
  "worker_ok nC w \<Longrightarrow> returned_worker w \<Longrightarrow> length (w_obs w) = nC \<and> w_j w = nC"
  by (cases "w_pc w") simp_all

lemma chanCap_less: "chanCap numWorkers numCalls < 2 ^ 63"
proof -
  have "sint (numWorkers * numCalls) < 2 ^ 63"
    using sint_lt[of "numWorkers * numCalls"] by simp
  then show ?thesis unfolding chanCap_def by simp
qed

lemma iterations_less: "iterations n < 2 ^ 63"
proof -
  have "sint n < 2 ^ 63" using sint_lt[of n] by simp
  then show ?thesis unfolding iterations_def by simp
qed

lemma init_bound:
  "chanCap numWorkers numCalls + length (workers (init svc numWorkers numCalls)) < 2 ^ 64"
  using chanCap_less[of numWorkers numCalls] iterations_less[of numWorkers]
  by (simp add: init_def)

lemma harness_inv_init:
  "harness_inv (chanCap numWorkers numCalls) (iterations numCalls) (init svc numWorkers numCalls)"
  by (simp add: harness_inv_def init_def)

lemma observed_init: "observed (init svc numWorkers numCalls) = []"
  by (simp add: observed_def init_def)

lemma vals_inv_init: "vals_inv (init svc numWorkers numCalls)"
  by (simp add: vals_inv_def observed_init) (simp add: init_def)

lemma finished_values:
  assumes h: "harness_inv cap nC s" and v: "vals_inv s" and f: "finished s" and c: "cap < 2 ^ 63"
  shows "length (observed s) = length (workers s) * nC"
    and "mset (map unat (observed s)) = mset [1..<Suc (length (workers s) * nC)]"
proof -
  have ok: "\<forall>w\<in>set (workers s). worker_ok nC w" using h unfolding harness_inv_def by blast
  have ret: "\<forall>w\<in>set (workers s). returned_worker w"
    using f unfolding finished_def list_all_iff by blast
  have each: "\<forall>w\<in>set (workers s). length (w_obs w) = nC \<and> w_j w = nC"
    using ok ret worker_ok_returned by blast
  have "length (observed s) = sum_list (map (\<lambda>w. length (w_obs w)) (workers s))"
    by (simp add: observed_def length_concat comp_def)
  also have "\<dots> = length (workers s) * nC" using each by (intro sum_list_const) blast
  finally show len: "length (observed s) = length (workers s) * nC" .
  have "sum_list (map w_j (workers s)) = length (workers s) * nC"
    using each by (intro sum_list_const) blast
  then have "length (workers s) * nC \<le> cap" using h unfolding harness_inv_def by simp
  then have lt: "length (workers s) * nC < 2 ^ 64" using c by simp
  have "mset (observed s) = mset (map of_nat [1..<Suc (length (workers s) * nC)])"
    using v unfolding vals_inv_def len by blast
  then have "mset (map unat (observed s))
               = mset (map unat (map (of_nat :: nat \<Rightarrow> u64) [1..<Suc (length (workers s) * nC)]))"
    by (metis mset_map)
  then show "mset (map unat (observed s)) = mset [1..<Suc (length (workers s) * nC)]"
    unfolding unat_upto[OF lt] .
qed

lemma run_invariants:
  assumes X_step: "\<And>l s s'. X s \<Longrightarrow> step call internal cap nC l s = Some s' \<Longrightarrow> X s'"
    and X_ret: "\<And>s t k c svc' x. X s \<Longrightarrow> t < length (workers s) \<Longrightarrow>
                  at_call nC (workers s ! t) c \<Longrightarrow> call k (service s) c = Return svc' x \<Longrightarrow>
                  x = of_nat (Suc (length (observed s)))"
    and init: "X s0" "harness_inv cap nC s0" "vals_inv s0" "cap + length (workers s0) < 2 ^ 64"
    and ex: "exec call internal cap nC sch s0 = Some s"
  shows "harness_inv cap nC s \<and> vals_inv s \<and> X s \<and> length (workers s) = length (workers s0)"
proof -
  let ?I = "\<lambda>s. harness_inv cap nC s \<and> vals_inv s \<and> X s \<and> length (workers s) = length (workers s0)"
  have "?I s" if I: "?I s1" and st: "step call internal cap nC l s1 = Some s" for l s1 s
  proof -
    have h': "harness_inv cap nC s" using st I by (blast intro: harness_inv_step)
    have b: "cap + length (workers s1) < 2 ^ 64" using I init(4) by simp
    have "vals_inv s"
    proof (rule vals_inv_step[OF st _ h' b])
      show "vals_inv s1" using I by blast
    next
      fix t k c svc' x
      assume "t < length (workers s1)" "at_call nC (workers s1 ! t) c"
        "call k (service s1) c = Return svc' x"
      then show "x = of_nat (Suc (length (observed s1)))" using I X_ret by blast
    qed
    moreover have "X s" using I st X_step by blast
    moreover have "length (workers s) = length (workers s0)" using step_length[OF st] I by simp
    ultimately show ?thesis using h' by blast
  qed
  then have "\<And>l s s'. ?I s \<Longrightarrow> step call internal cap nC l s = Some s' \<Longrightarrow> ?I s'" by blast
  moreover have "?I s0" using init by blast
  ultimately show ?thesis using ex by (rule exec_invariant)
qed

lemma atomic_inv_init: "atomic_inv (init atomicIdService_new numWorkers numCalls)"
  by (simp add: atomic_inv_def observed_init) (simp add: init_def atomicIdService_new_def)

lemma atomic_run:
  assumes "exec atomic_call no_internal (chanCap numWorkers numCalls) (iterations numCalls) sch
             (init atomicIdService_new numWorkers numCalls) = Some s"
  shows "harness_inv (chanCap numWorkers numCalls) (iterations numCalls) s \<and> vals_inv s \<and>
         atomic_inv s \<and>
         length (workers s) = length (workers (init atomicIdService_new numWorkers numCalls :: (atomicIdService, unit) state))"
proof (rule run_invariants[where X = atomic_inv, OF _ _ atomic_inv_init harness_inv_init vals_inv_init init_bound assms])
  show "\<And>l s s'. atomic_inv s \<Longrightarrow>
         step atomic_call no_internal (chanCap numWorkers numCalls) (iterations numCalls) l s = Some s' \<Longrightarrow>
         atomic_inv s'"
    by (rule atomic_inv_step)
next
  show "\<And>s t k c svc' x. atomic_inv s \<Longrightarrow> t < length (workers s) \<Longrightarrow>
          at_call (iterations numCalls) (workers s ! t) c \<Longrightarrow>
          atomic_call k (service s) c = Return svc' x \<Longrightarrow> x = of_nat (Suc (length (observed s)))"
    by (rule atomic_ret(1))
qed

subsection \<open>mutexIdService\<close>

lemma nth_update_if: "(xs[t := y]) ! j = (if j = t \<and> t < length xs then y else xs ! j)"
  by (cases "t < length xs") (auto simp: nth_list_update list_update_beyond)

text \<open>A step of a worker that is in no call before and after keeps who is in a call.\<close>

lemma one_caller_outside:
  assumes "one_caller s" and "workers s' = (workers s)[t := w']" and "\<not> in_call w'"
  shows "one_caller s'"
  using assms unfolding one_caller_def
  by (auto simp: nth_update_if split: if_splits)

lemma one_caller_inside:
  assumes "one_caller s" and "workers s' = (workers s)[t := w']" and "t < length (workers s)"
    and "in_call (workers s ! t)"
  shows "one_caller s'"
  using assms unfolding one_caller_def
  by (auto simp: nth_update_if split: if_splits)

lemma one_caller_enter:
  assumes "\<forall>t'<length (workers s). \<not> in_call (workers s ! t')"
    and "workers s' = (workers s)[t := w']"
  shows "one_caller s'"
  using assms unfolding one_caller_def
  by (auto simp: nth_update_if split: if_splits)

lemma one_caller_others:
  assumes "one_caller s" and "t < length (workers s)" and "in_call (workers s ! t)"
    and "t' < length (workers s)" and "t' \<noteq> t"
  shows "\<not> in_call (workers s ! t')"
  using assms unfolding one_caller_def by blast

lemma at_call_Some: "at_call nC w (Some c) \<Longrightarrow> w_pc w = InCall c"
  by (cases "w_pc w") simp_all

lemma at_call_None: "at_call nC w None \<Longrightarrow> w_pc w = LoopHead"
  by (cases "w_pc w") simp_all

lemma mutex_ret:
  assumes inv: "mutex_inv s" and t: "t < length (workers s)"
    and ac: "at_call nC (workers s ! t) c" and call: "mutex_call k (service s) c = Return svc' x"
  shows "x = of_nat (Suc (length (observed s)))"
proof -
  from call obtain v where c: "c = Some (MutexReturning v)" and x: "x = v"
    by (cases "(k, service s, c)" rule: mutex_call.cases) (auto split: if_splits)
  have "w_pc (workers s ! t) = InCall (MutexReturning v)" using ac c by (simp add: at_call_Some)
  then have "holder_ok (service s) (length (observed s)) (MutexReturning v)"
    using inv t unfolding mutex_inv_def by blast
  then show ?thesis by (simp add: x)
qed

lemma mutex_inv_holderI:
  assumes "workers s' = (workers s)[t := w']" and "t < length (workers s)"
    and "w_pc w' = InCall c'"
    and "\<forall>t'<length (workers s). t' \<noteq> t \<longrightarrow> \<not> in_call (workers s ! t')"
    and "mu_locked (service s')"
    and "holder_ok (service s') (length (observed s')) c'"
  shows "mutex_inv s'"
  using assms unfolding mutex_inv_def one_caller_def in_call_def
  by (auto simp: nth_update_if split: if_splits)

lemma mutex_inv_freeI:
  assumes "workers s' = (workers s)[t := w']" and "\<not> in_call w'"
    and "\<forall>t'<length (workers s). t' \<noteq> t \<longrightarrow> \<not> in_call (workers s ! t')"
    and "\<not> mu_locked (service s') \<longrightarrow> mu_id (service s') = of_nat (length (observed s'))"
  shows "mutex_inv s'"
  using assms unfolding mutex_inv_def one_caller_def in_call_def
  by (auto simp: nth_update_if split: if_splits)

lemma mutex_inv_outsideI:
  assumes "mutex_inv s" and "workers s' = (workers s)[t := w']" and "t < length (workers s)"
    and "\<not> in_call (workers s ! t)" and "\<not> in_call w'"
    and "service s' = service s" and "observed s' = observed s"
  shows "mutex_inv s'"
  using assms unfolding mutex_inv_def one_caller_def in_call_def
  by (auto simp: nth_update_if split: if_splits)

lemma mutex_inv_unlocked:
  assumes "mutex_inv s" and "\<not> mu_locked (service s)"
  shows "\<forall>t'<length (workers s). \<not> in_call (workers s ! t')"
  using assms unfolding mutex_inv_def in_call_def by blast

lemma mutex_inv_others:
  assumes "mutex_inv s" and "t < length (workers s)" and "w_pc (workers s ! t) = InCall c"
  shows "\<forall>t'<length (workers s). t' \<noteq> t \<longrightarrow> \<not> in_call (workers s ! t')"
  using assms unfolding mutex_inv_def one_caller_def in_call_def by blast

lemma mutex_inv_holder:
  assumes "mutex_inv s" and "t < length (workers s)" and "w_pc (workers s ! t) = InCall c"
  shows "mu_locked (service s)" and "holder_ok (service s) (length (observed s)) c"
  using assms unfolding mutex_inv_def by blast+

lemma mutex_inv_step:
  assumes st: "step mutex_call no_internal cap nC l s = Some s'" and inv: "mutex_inv s"
  shows "mutex_inv s'"
  using st
proof (cases rule: step_cases)
  case (Serve k svc')
  then show ?thesis by (simp add: no_internal_def)
next
  case (Next t k c svc' c')
  let ?w' = "(workers s ! t)\<lparr>w_pc := InCall c'\<rparr>"
  have ws: "workers s' = (workers s)[t := ?w']" and sv: "service s' = svc'"
    by (simp_all add: Next(6))
  have o: "observed s' = observed s" by (rule observed_keep[OF _ ws]) simp
  show ?thesis
  proof (cases c)
    case None
    with Next(5) have ul: "\<not> mu_locked (service s)"
      and svc': "svc' = (service s)\<lparr>mu_locked := True\<rparr>" and c': "c' = MutexHeld"
      by (auto split: if_splits)
    have id: "mu_id (service s) = of_nat (length (observed s))"
      using inv ul unfolding mutex_inv_def by blast
    show ?thesis
    proof (rule mutex_inv_holderI[OF ws Next(3)])
      show "w_pc ?w' = InCall c'" by simp
      show "\<forall>t'<length (workers s). t' \<noteq> t \<longrightarrow> \<not> in_call (workers s ! t')"
        using mutex_inv_unlocked[OF inv ul] by blast
      show "mu_locked (service s')" by (simp add: sv svc')
      show "holder_ok (service s') (length (observed s')) c'"
        by (simp add: sv svc' c' o id)
    qed
  next
    case (Some c0)
    have pc: "w_pc (workers s ! t) = InCall c0" using Next(4) Some by (simp add: at_call_Some)
    note h = mutex_inv_holder[OF inv Next(3) pc]
    show ?thesis
    proof (rule mutex_inv_holderI[OF ws Next(3)])
      show "w_pc ?w' = InCall c'" by simp
      show "\<forall>t'<length (workers s). t' \<noteq> t \<longrightarrow> \<not> in_call (workers s ! t')"
        by (rule mutex_inv_others[OF inv Next(3) pc])
      show "mu_locked (service s')" using Next(5) h(1) unfolding Some sv
        by (cases c0) auto
      show "holder_ok (service s') (length (observed s')) c'"
        using Next(5) h(2) unfolding Some sv o by (cases c0) auto
    qed
  qed
next
  case (Return t k c svc' x)
  let ?w' = "(workers s ! t)\<lparr>w_obs := w_obs (workers s ! t) @ [x],
                 w_pc := (if x < w_lastId (workers s ! t)
                          then ReturnedErr x (w_lastId (workers s ! t)) else Sending x)\<rparr>"
  have ws: "workers s' = (workers s)[t := ?w']" and sv: "service s' = svc'"
    by (simp_all add: Return(6))
  have len: "length (observed s') = Suc (length (observed s))"
    by (rule observed_Return[OF Return(3) _ ws]) simp
  from Return(5) obtain v where c: "c = Some (MutexReturning v)"
    and svc': "svc' = (service s)\<lparr>mu_locked := False\<rparr>"
    by (cases "(k, service s, c)" rule: mutex_call.cases) (auto split: if_splits)
  have pc: "w_pc (workers s ! t) = InCall (MutexReturning v)"
    using Return(4) c by (simp add: at_call_Some)
  note h = mutex_inv_holder[OF inv Return(3) pc]
  show ?thesis
  proof (rule mutex_inv_freeI[OF ws])
    show "\<not> in_call ?w'" by (simp add: in_call_def)
    show "\<forall>t'<length (workers s). t' \<noteq> t \<longrightarrow> \<not> in_call (workers s ! t')"
      by (rule mutex_inv_others[OF inv Return(3) pc])
    show "\<not> mu_locked (service s') \<longrightarrow> mu_id (service s') = of_nat (length (observed s'))"
      using h(2) by (simp add: sv svc' len)
  qed
next
  case (Panic t k c p)
  then show ?thesis
    by (cases "(k, service s, c)" rule: mutex_call.cases) (auto split: if_splits)
next
  case (Send t k x)
  show ?thesis
  proof (rule mutex_inv_outsideI[OF inv _ Send(3)])
    show "workers s' = (workers s)[t := (workers s ! t)\<lparr>w_pc := LoopHead,
            w_j := w_j (workers s ! t) + 1\<rparr>]" by (simp add: Send(6))
    then show "observed s' = observed s" by (rule observed_keep[rotated]) simp
    show "\<not> in_call (workers s ! t)" by (simp add: in_call_def Send(4))
  qed (simp_all add: in_call_def Send(6))
next
  case (Exit t k)
  show ?thesis
  proof (rule mutex_inv_outsideI[OF inv _ Exit(3)])
    show "workers s' = (workers s)[t := (workers s ! t)\<lparr>w_pc := ReturnedNil\<rparr>]"
      by (simp add: Exit(6))
    then show "observed s' = observed s" by (rule observed_keep[rotated]) simp
    show "\<not> in_call (workers s ! t)" by (simp add: in_call_def Exit(4))
  qed (simp_all add: in_call_def Exit(6))
qed

lemma mutex_inv_init: "mutex_inv (init mutexIdService_new numWorkers numCalls)"
  unfolding mutex_inv_def one_caller_def observed_init
  by (simp add: init_def mutexIdService_new_def in_call_def)

lemma mutex_run:
  assumes "exec mutex_call no_internal (chanCap numWorkers numCalls) (iterations numCalls) sch
             (init mutexIdService_new numWorkers numCalls) = Some s"
  shows "harness_inv (chanCap numWorkers numCalls) (iterations numCalls) s \<and> vals_inv s \<and>
         mutex_inv s \<and>
         length (workers s) = length (workers (init mutexIdService_new numWorkers numCalls :: (mutexIdService, mutex_pc) state))"
proof (rule run_invariants[where X = mutex_inv, OF _ _ mutex_inv_init harness_inv_init vals_inv_init init_bound assms])
  show "\<And>l s s'. mutex_inv s \<Longrightarrow>
         step mutex_call no_internal (chanCap numWorkers numCalls) (iterations numCalls) l s = Some s' \<Longrightarrow>
         mutex_inv s'"
    by (rule mutex_inv_step)
next
  show "\<And>s t k c svc' x. mutex_inv s \<Longrightarrow> t < length (workers s) \<Longrightarrow>
          at_call (iterations numCalls) (workers s ! t) c \<Longrightarrow>
          mutex_call k (service s) c = Return svc' x \<Longrightarrow> x = of_nat (Suc (length (observed s)))"
    by (rule mutex_ret)
qed

subsection \<open>goroutineIdService with its one serving goroutine\<close>

lemma goroutine_call_Return:
  assumes "goroutine_call k g c = Return svc' x"
  shows "c = Some AwaitResponse \<and> k < length (owners g) \<and> o_pc (owners g ! k) = Responding \<and>
         x = o_id (owners g ! k) \<and>
         svc' = g\<lparr>owners := (owners g)[k := (owners g ! k)\<lparr>o_pc := Listening\<rparr>]\<rparr>"
  using assms by (cases "(k, g, c)" rule: goroutine_call.cases) (auto split: if_splits)

lemma goroutine_call_Next:
  assumes "goroutine_call k g c = Next svc' c'"
  shows "c = None \<and> c' = AwaitResponse \<and> \<not> requests_closed g \<and> k < length (owners g) \<and>
         o_pc (owners g ! k) = Listening \<and>
         svc' = g\<lparr>owners := (owners g)[k := (owners g ! k)\<lparr>o_pc := Incrementing\<rparr>]\<rparr>"
  using assms by (cases "(k, g, c)" rule: goroutine_call.cases) (auto split: if_splits)

lemma goroutine_call_Panics:
  assumes "goroutine_call k g c = Panics p"
  shows "requests_closed g"
  using assms by (cases "(k, g, c)" rule: goroutine_call.cases) (auto split: if_splits)

lemma goroutine_ret:
  assumes inv: "goroutine_inv s" and t: "t < length (workers s)"
    and ac: "at_call nC (workers s ! t) c"
    and call: "goroutine_call k (service s) c = Return svc' x"
  shows "x = of_nat (Suc (length (observed s)))"
proof -
  note r = goroutine_call_Return[OF call]
  from inv r have k: "k = 0" unfolding goroutine_inv_def by simp
  from inv r show ?thesis unfolding goroutine_inv_def k by simp
qed

lemma goroutine_inv_outsideI:
  assumes "goroutine_inv s" and "workers s' = (workers s)[t := w']" and "t < length (workers s)"
    and "\<not> in_call (workers s ! t)" and "\<not> in_call w'"
    and "service s' = service s" and "observed s' = observed s"
  shows "goroutine_inv s'"
  using assms unfolding goroutine_inv_def one_caller_def
  by (auto simp: nth_update_if split: if_splits owner_pc.splits)

lemma goroutine_inv_step:
  assumes st: "step goroutine_call goroutine_internal cap nC l s = Some s'"
    and inv: "goroutine_inv s"
  shows "goroutine_inv s'"
  using st
proof (cases rule: step_cases)
  case (Serve k svc')
  have ws: "workers s' = workers s" and sv: "service s' = svc'" by (simp_all add: Serve(4))
  have o: "observed s' = observed s" by (simp add: observed_def ws)
  have oc: "one_caller s'" using inv unfolding goroutine_inv_def one_caller_def ws by blast
  from inv have nc: "\<not> requests_closed (service s)" and one: "length (owners (service s)) = 1"
    unfolding goroutine_inv_def by blast+
  from Serve(3) one have k: "k = 0"
    by (simp add: goroutine_internal_def split: if_splits)
  from Serve(3) nc one have pc: "o_pc (owners (service s) ! 0) = Incrementing"
    and svc': "svc' = (service s)\<lparr>owners := (owners (service s))[0 :=
                 (owners (service s) ! 0)\<lparr>o_id := o_id (owners (service s) ! 0) + 1,
                    o_pc := Responding\<rparr>]\<rparr>"
    unfolding k by (auto simp: goroutine_internal_def split: if_splits owner_pc.splits)
  from inv pc have id: "o_id (owners (service s) ! 0) = of_nat (length (observed s))"
    unfolding goroutine_inv_def by simp
  show ?thesis
    unfolding goroutine_inv_def o sv using nc one oc id by (simp add: svc')
next
  case (Next t k c svc' c')
  let ?w' = "(workers s ! t)\<lparr>w_pc := InCall c'\<rparr>"
  have ws: "workers s' = (workers s)[t := ?w']" and sv: "service s' = svc'"
    by (simp_all add: Next(6))
  have o: "observed s' = observed s" by (rule observed_keep[OF _ ws]) simp
  note n = goroutine_call_Next[OF Next(5)]
  from inv have nc: "\<not> requests_closed (service s)" and one: "length (owners (service s)) = 1"
    unfolding goroutine_inv_def by blast+
  from n one have k: "k = 0" by simp
  from n have pc: "o_pc (owners (service s) ! 0) = Listening" unfolding k by blast
  from inv pc have id: "o_id (owners (service s) ! 0) = of_nat (length (observed s))"
    and none: "\<forall>t<length (workers s). \<not> in_call (workers s ! t)"
    unfolding goroutine_inv_def by simp_all
  have oc: "one_caller s'" using none ws by (rule one_caller_enter)
  have svc': "svc' = (service s)\<lparr>owners := (owners (service s))[0 :=
                 (owners (service s) ! 0)\<lparr>o_pc := Incrementing\<rparr>]\<rparr>"
    using n unfolding k by blast
  show ?thesis
    unfolding goroutine_inv_def o sv using nc one oc id by (simp add: svc')
next
  case (Return t k c svc' x)
  let ?w' = "(workers s ! t)\<lparr>w_obs := w_obs (workers s ! t) @ [x],
                 w_pc := (if x < w_lastId (workers s ! t)
                          then ReturnedErr x (w_lastId (workers s ! t)) else Sending x)\<rparr>"
  have ws: "workers s' = (workers s)[t := ?w']" and sv: "service s' = svc'"
    by (simp_all add: Return(6))
  have len: "length (observed s') = Suc (length (observed s))"
    by (rule observed_Return[OF Return(3) _ ws]) simp
  note r = goroutine_call_Return[OF Return(5)]
  from inv have nc: "\<not> requests_closed (service s)" and one: "length (owners (service s)) = 1"
    and oc: "one_caller s"
    unfolding goroutine_inv_def by blast+
  from r one have k: "k = 0" by simp
  from r have pc: "o_pc (owners (service s) ! 0) = Responding" unfolding k by blast
  from inv pc have id: "o_id (owners (service s) ! 0) = of_nat (Suc (length (observed s)))"
    unfolding goroutine_inv_def by simp
  have ic: "in_call (workers s ! t)"
    using Return(4) r by (simp add: at_call_Some in_call_def)
  have nw: "\<not> in_call ?w'" by (simp add: in_call_def)
  have oc': "one_caller s'" using oc ws nw by (rule one_caller_outside)
  have none: "\<forall>t'<length (workers s'). \<not> in_call (workers s' ! t')"
    using one_caller_others[OF oc Return(3) ic] nw unfolding ws
    by (auto simp: nth_update_if)
  have svc': "svc' = (service s)\<lparr>owners := (owners (service s))[0 :=
                 (owners (service s) ! 0)\<lparr>o_pc := Listening\<rparr>]\<rparr>"
    using r unfolding k by blast
  show ?thesis
    unfolding goroutine_inv_def len sv using nc one oc' id none by (simp add: svc')
next
  case (Panic t k c p)
  from goroutine_call_Panics[OF Panic(5)] inv show ?thesis
    unfolding goroutine_inv_def by blast
next
  case (Send t k x)
  show ?thesis
  proof (rule goroutine_inv_outsideI[OF inv _ Send(3)])
    show "workers s' = (workers s)[t := (workers s ! t)\<lparr>w_pc := LoopHead,
            w_j := w_j (workers s ! t) + 1\<rparr>]" by (simp add: Send(6))
    then show "observed s' = observed s" by (rule observed_keep[rotated]) simp
    show "\<not> in_call (workers s ! t)" by (simp add: in_call_def Send(4))
  qed (simp_all add: in_call_def Send(6))
next
  case (Exit t k)
  show ?thesis
  proof (rule goroutine_inv_outsideI[OF inv _ Exit(3)])
    show "workers s' = (workers s)[t := (workers s ! t)\<lparr>w_pc := ReturnedNil\<rparr>]"
      by (simp add: Exit(6))
    then show "observed s' = observed s" by (rule observed_keep[rotated]) simp
    show "\<not> in_call (workers s ! t)" by (simp add: in_call_def Exit(4))
  qed (simp_all add: in_call_def Exit(6))
qed

lemma goroutine_inv_init: "goroutine_inv (init MakeGoroutineIdService numWorkers numCalls)"
  unfolding goroutine_inv_def one_caller_def observed_init
  by (simp add: init_def MakeGoroutineIdService_def Start_def in_call_def)

lemma goroutine_run:
  assumes "exec goroutine_call goroutine_internal (chanCap numWorkers numCalls) (iterations numCalls) sch
             (init MakeGoroutineIdService numWorkers numCalls) = Some s"
  shows "harness_inv (chanCap numWorkers numCalls) (iterations numCalls) s \<and> vals_inv s \<and>
         goroutine_inv s \<and>
         length (workers s) = length (workers (init MakeGoroutineIdService numWorkers numCalls :: (goroutineIdService, goroutine_pc) state))"
proof (rule run_invariants[where X = goroutine_inv, OF _ _ goroutine_inv_init harness_inv_init vals_inv_init init_bound assms])
  show "\<And>l s s'. goroutine_inv s \<Longrightarrow>
         step goroutine_call goroutine_internal (chanCap numWorkers numCalls) (iterations numCalls) l s = Some s' \<Longrightarrow>
         goroutine_inv s'"
    by (rule goroutine_inv_step)
next
  show "\<And>s t k c svc' x. goroutine_inv s \<Longrightarrow> t < length (workers s) \<Longrightarrow>
          at_call (iterations numCalls) (workers s ! t) c \<Longrightarrow>
          goroutine_call k (service s) c = Return svc' x \<Longrightarrow> x = of_nat (Suc (length (observed s)))"
    by (rule goroutine_ret)
qed

subsection \<open>noSyncIdService with a single worker\<close>

lemma noSync_ret:
  assumes inv: "noSync_solo_inv s" and t: "t < length (workers s)"
    and ac: "at_call nC (workers s ! t) c" and call: "noSync_call k (service s) c = Return svc' x"
  shows "x = of_nat (Suc (length (observed s)))"
proof -
  from call have c: "c = Some NoSyncStored" and x: "x = ns_id (service s)"
    by (cases "(k, service s, c)" rule: noSync_call.cases; simp)+
  from inv t have t0: "t = 0" unfolding noSync_solo_inv_def by simp
  have "w_pc (workers s ! 0) = InCall NoSyncStored" using ac unfolding c t0 by (rule at_call_Some)
  then show ?thesis using inv unfolding noSync_solo_inv_def x by simp
qed

lemma noSync_solo_inv_step:
  assumes st: "step noSync_call no_internal cap nC l s = Some s'" and inv: "noSync_solo_inv s"
  shows "noSync_solo_inv s'"
  using st
proof (cases rule: step_cases)
  case (Serve k svc')
  then show ?thesis by (simp add: no_internal_def)
next
  case (Next t k c svc' c')
  from inv Next(3) have t0: "t = 0" and one: "length (workers s) = 1"
    unfolding noSync_solo_inv_def by simp_all
  let ?w' = "(workers s ! t)\<lparr>w_pc := InCall c'\<rparr>"
  have ws: "workers s' = (workers s)[t := ?w']" and sv: "service s' = svc'"
    by (simp_all add: Next(6))
  have o: "observed s' = observed s" by (rule observed_keep[OF _ ws]) simp
  have pc': "w_pc (workers s' ! 0) = InCall c'" using one by (simp add: ws t0)
  from inv have ok: "noSync_ok (service s) (length (observed s)) (w_pc (workers s ! 0))"
    unfolding noSync_solo_inv_def by blast
  have "noSync_ok svc' (length (observed s)) (InCall c')"
  proof (cases c)
    case None
    have "w_pc (workers s ! 0) = LoopHead" using Next(4) unfolding None t0 by (rule at_call_None)
    with ok Next(5) None show ?thesis by auto
  next
    case (Some c0)
    have "w_pc (workers s ! 0) = InCall c0" using Next(4) unfolding Some t0 by (rule at_call_Some)
    with ok Next(5) Some show ?thesis by (cases c0) auto
  qed
  then show ?thesis unfolding noSync_solo_inv_def o sv pc' using one by (simp add: ws)
next
  case (Return t k c svc' x)
  from inv Return(3) have t0: "t = 0" and one: "length (workers s) = 1"
    unfolding noSync_solo_inv_def by simp_all
  let ?w' = "(workers s ! t)\<lparr>w_obs := w_obs (workers s ! t) @ [x],
                 w_pc := (if x < w_lastId (workers s ! t)
                          then ReturnedErr x (w_lastId (workers s ! t)) else Sending x)\<rparr>"
  have ws: "workers s' = (workers s)[t := ?w']" and sv: "service s' = svc'"
    by (simp_all add: Return(6))
  have len: "length (observed s') = Suc (length (observed s))"
    by (rule observed_Return[OF Return(3) _ ws]) simp
  from Return(5) have c: "c = Some NoSyncStored" and svc': "svc' = service s"
    by (cases "(k, service s, c)" rule: noSync_call.cases; simp)+
  have "w_pc (workers s ! 0) = InCall NoSyncStored"
    using Return(4) unfolding c t0 by (rule at_call_Some)
  with inv have id: "ns_id (service s) = of_nat (Suc (length (observed s)))"
    unfolding noSync_solo_inv_def by simp
  have "noSync_ok svc' (Suc (length (observed s))) (w_pc (workers s' ! 0))"
    using one id by (simp add: ws t0 svc')
  then show ?thesis unfolding noSync_solo_inv_def len sv using one by (simp add: ws)
next
  case (Panic t k c p)
  then show ?thesis by (cases "(k, service s, c)" rule: noSync_call.cases) simp_all
next
  case (Send t k x)
  from inv Send(3) have t0: "t = 0" and one: "length (workers s) = 1"
    unfolding noSync_solo_inv_def by simp_all
  let ?w' = "(workers s ! t)\<lparr>w_pc := LoopHead, w_j := w_j (workers s ! t) + 1\<rparr>"
  have ws: "workers s' = (workers s)[t := ?w']" and sv: "service s' = service s"
    by (simp_all add: Send(6))
  have o: "observed s' = observed s" by (rule observed_keep[OF _ ws]) simp
  from inv Send(4) have "ns_id (service s) = of_nat (length (observed s))"
    unfolding noSync_solo_inv_def t0 by simp
  then show ?thesis unfolding noSync_solo_inv_def o sv using one by (simp add: ws t0)
next
  case (Exit t k)
  from inv Exit(3) have t0: "t = 0" and one: "length (workers s) = 1"
    unfolding noSync_solo_inv_def by simp_all
  let ?w' = "(workers s ! t)\<lparr>w_pc := ReturnedNil\<rparr>"
  have ws: "workers s' = (workers s)[t := ?w']" and sv: "service s' = service s"
    by (simp_all add: Exit(6))
  have o: "observed s' = observed s" by (rule observed_keep[OF _ ws]) simp
  from inv Exit(4) have "ns_id (service s) = of_nat (length (observed s))"
    unfolding noSync_solo_inv_def t0 by simp
  then show ?thesis unfolding noSync_solo_inv_def o sv using one by (simp add: ws t0)
qed

lemma iterations_1: "iterations 1 = 1"
  by (simp add: iterations_def)

lemma noSync_solo_inv_init: "noSync_solo_inv (init noSyncIdService_new 1 numCalls)"
  unfolding noSync_solo_inv_def observed_init
  by (simp add: init_def noSyncIdService_new_def iterations_1)

lemma noSync_solo_run:
  assumes "exec noSync_call no_internal (chanCap 1 numCalls) (iterations numCalls) sch
             (init noSyncIdService_new 1 numCalls) = Some s"
  shows "harness_inv (chanCap 1 numCalls) (iterations numCalls) s \<and> vals_inv s \<and>
         noSync_solo_inv s \<and>
         length (workers s) = length (workers (init noSyncIdService_new 1 numCalls :: (noSyncIdService, noSync_pc) state))"
proof (rule run_invariants[where X = noSync_solo_inv, OF _ _ noSync_solo_inv_init harness_inv_init vals_inv_init init_bound assms])
  show "\<And>l s s'. noSync_solo_inv s \<Longrightarrow>
         step noSync_call no_internal (chanCap 1 numCalls) (iterations numCalls) l s = Some s' \<Longrightarrow>
         noSync_solo_inv s'"
    by (rule noSync_solo_inv_step)
next
  show "\<And>s t k c svc' x. noSync_solo_inv s \<Longrightarrow> t < length (workers s) \<Longrightarrow>
          at_call (iterations numCalls) (workers s ! t) c \<Longrightarrow>
          noSync_call k (service s) c = Return svc' x \<Longrightarrow> x = of_nat (Suc (length (observed s)))"
    by (rule noSync_ret)
qed

subsection \<open>One worker: the values in call order\<close>

lemma sorted_mset_unique:
  fixes xs ys :: "nat list"
  assumes "mset xs = mset ys" and "sorted xs" and "sorted ys"
  shows "xs = ys"
  using assms by (metis properties_for_sort sorted_sort_id)

lemma single_worker_values:
  assumes h: "harness_inv cap nC s" and v: "vals_inv s" and f: "finished s" and c: "cap < 2 ^ 63"
    and one: "length (workers s) = 1"
  shows "map unat (observed s) = [1..<Suc nC]"
proof -
  from one obtain w where ws: "workers s = [w]"
    by (cases "workers s") simp_all
  have o: "observed s = w_obs w" by (simp add: observed_def ws)
  have "sorted_wrt (<) (w_obs w)" using v unfolding vals_inv_def ws by simp
  then have "sorted_wrt (\<lambda>a b. unat a \<le> unat b) (w_obs w)"
    by (rule sorted_wrt_mono_rel[rotated]) (simp add: word_less_nat_alt)
  then have srt: "sorted (map unat (observed s))" unfolding o by (simp add: sorted_map)
  have "mset (map unat (observed s)) = mset [1..<Suc (length (workers s) * nC)]"
    using h v f c by (rule finished_values(2))
  then have m: "mset (map unat (observed s)) = mset [1..<Suc nC]"
    unfolding one by (simp del: upt_Suc)
  show ?thesis by (rule sorted_mset_unique[OF m srt sorted_upt])
qed

lemma calls_noSync:
  "calls (total noSync_getNext) n \<lparr>ns_id = c\<rparr>
     = [Inr (map (\<lambda>k. c + of_nat k) [1..<Suc n], \<lparr>ns_id = c + of_nat n\<rparr>)]"
  by (induction n) (simp_all add: total_def noSync_getNext_def Let_def add.assoc)

lemma calls_atomic:
  "calls (total atomic_getNext) n \<lparr>at_id = c\<rparr>
     = [Inr (map (\<lambda>k. c + of_nat k) [1..<Suc n], \<lparr>at_id = c + of_nat n\<rparr>)]"
  by (induction n) (simp_all add: total_def atomic_getNext_def Let_def add.assoc)

lemma calls_mutex:
  "calls (single mutex_getNext) n \<lparr>mu_locked = False, mu_id = c\<rparr>
     = [Inr (map (\<lambda>k. c + of_nat k) [1..<Suc n], \<lparr>mu_locked = False, mu_id = c + of_nat n\<rparr>)]"
  by (induction n) (simp_all add: single_def mutex_getNext_def Let_def add.assoc)

lemma goroutine_getNext_one:
  "goroutine_getNext
     \<lparr>requests_closed = False, responses_closed = False,
      owners = [\<lparr>o_pc = Listening, o_id = c\<rparr>]\<rparr>
     = [Returns (c + 1)
          \<lparr>requests_closed = False, responses_closed = False,
           owners = [\<lparr>o_pc = Listening, o_id = c + 1\<rparr>]\<rparr>]"
  by (simp add: goroutine_getNext_def serve_def Let_def)

lemma calls_goroutine:
  "calls goroutine_getNext n
     \<lparr>requests_closed = False, responses_closed = False,
      owners = [\<lparr>o_pc = Listening, o_id = c\<rparr>]\<rparr>
     = [Inr (map (\<lambda>k. c + of_nat k) [1..<Suc n],
             \<lparr>requests_closed = False, responses_closed = False,
              owners = [\<lparr>o_pc = Listening, o_id = c + of_nat n\<rparr>]\<rparr>)]"
  by (induction n) (simp_all add: goroutine_getNext_one add.assoc)

lemma returned_noSync:
  "returned (calls (total noSync_getNext) n noSyncIdService_new) = [Inr (map of_nat [1..<Suc n])]"
  unfolding noSyncIdService_new_def calls_noSync returned_def by simp

lemma returned_atomic:
  "returned (calls (total atomic_getNext) n atomicIdService_new) = [Inr (map of_nat [1..<Suc n])]"
  unfolding atomicIdService_new_def calls_atomic returned_def by simp

lemma returned_mutex:
  "returned (calls (single mutex_getNext) n mutexIdService_new) = [Inr (map of_nat [1..<Suc n])]"
  unfolding mutexIdService_new_def calls_mutex returned_def by simp

lemma returned_goroutine:
  "returned (calls goroutine_getNext n MakeGoroutineIdService) = [Inr (map of_nat [1..<Suc n])]"
  unfolding MakeGoroutineIdService_def Start_def returned_def by (simp add: calls_goroutine)

lemma returned_nats_of:
  assumes "returned rs = [Inr (map of_nat [1..<Suc (unat (i :: u64))])]"
  shows "returned_nats rs = [Inr [1..<Suc (unat i)]]"
proof -
  have lt: "unat i < 2 ^ 64" using unsigned_less[of i] by simp
  have "returned_nats rs = map (map_sum (\<lambda>e. e) (map unat)) (returned rs)"
    by (simp add: returned_nats_def returned_def sum.map_comp comp_def)
  also have "\<dots> = [Inr (map unat (map (of_nat :: nat \<Rightarrow> u64) [1..<Suc (unat i)]))]"
    unfolding assms by simp
  finally show ?thesis unfolding unat_upto[OF lt] .
qed

lemma one_worker_run:
  assumes inv: "harness_inv (chanCap 1 numCalls) (iterations numCalls) s \<and> vals_inv s \<and> X s \<and>
                length (workers s) = length (workers (init svc 1 numCalls :: ('s, 'c) state))"
    and f: "finished (s :: ('s, 'c) state)"
  shows "map unat (observed s) = [1..<Suc (iterations numCalls)]"
proof -
  have one: "length (workers s) = 1" using inv by (simp add: init_def iterations_1)
  show ?thesis
    by (rule single_worker_values[OF _ _ f chanCap_less one]) (use inv in blast)+
qed

lemma unat_is_1: "unat (x :: u64) = Suc 0 \<Longrightarrow> x = 1"
  by (metis One_nat_def unat_1 word_eq_iff_unsigned)

lemma unat_singleton_1: "map unat xs = [Suc 0] \<Longrightarrow> xs = [1 :: u64]"
  by (cases xs) (auto dest: unat_is_1)

lemma one_by_one:
  assumes "map unat (observed s) = [1..<Suc (iterations 1)]"
  shows "observed s = [1]"
  using assms by (simp add: iterations_1 unat_singleton_1)

section \<open>Runs of the synchronized services\<close>

text \<open>
  For \<open>atomicIdService\<close>, \<open>mutexIdService\<close> and the \<open>goroutineIdService\<close> that
  \<open>MakeGoroutineIdService\<close> returns (one serving goroutine), along every schedule: a
  complete run of \<open>RunService\<close> hands out exactly the values \<open>1, ..., N * M\<close>, each once, and at
  every moment every worker has received its values in strictly increasing order. The
  capacity of \<open>idChan\<close> is below \<open>2^63\<close>, so no run reaches the wrap-around of the counter.
\<close>

lemma complete_values:
  assumes inv: "harness_inv (chanCap numWorkers numCalls) (iterations numCalls) s \<and> vals_inv s \<and>
                X s \<and>
                length (workers s) = length (workers (init svc numWorkers numCalls :: ('s, 'c) state))"
    and f: "finished (s :: ('s, 'c) state)"
  shows "mset (map unat (observed s)) = mset [1..<Suc (iterations numWorkers * iterations numCalls)] \<and>
         distinct (observed s)"
proof -
  have len: "length (workers s) = iterations numWorkers" using inv by (simp add: init_def)
  have "mset (map unat (observed s)) = mset [1..<Suc (length (workers s) * iterations numCalls)]"
    by (rule finished_values(2)[OF _ _ f chanCap_less]) (use inv in blast)+
  then have m: "mset (map unat (observed s))
                  = mset [1..<Suc (iterations numWorkers * iterations numCalls)]"
    unfolding len .
  have "distinct (map unat (observed s))"
    using mset_eq_imp_distinct_iff[OF m] by simp
  then have "distinct (observed s)" by (simp add: distinct_map)
  with m show ?thesis by blast
qed

lemma run_increasing:
  assumes "harness_inv cap nC s \<and> vals_inv s \<and> X s \<and> L"
  shows "\<forall>w\<in>set (workers s). sorted_wrt (<) (w_obs w)"
  using assms unfolding vals_inv_def by blast

theorem synchronized_values:
  "(complete_run atomic_call no_internal atomicIdService_new numWorkers numCalls sch1 s1 \<longrightarrow>
      mset (map unat (observed s1)) = mset [1..<Suc (iterations numWorkers * iterations numCalls)] \<and>
      distinct (observed s1)) \<and>
   (complete_run mutex_call no_internal mutexIdService_new numWorkers numCalls sch2 s2 \<longrightarrow>
      mset (map unat (observed s2)) = mset [1..<Suc (iterations numWorkers * iterations numCalls)] \<and>
      distinct (observed s2)) \<and>
   (complete_run goroutine_call goroutine_internal MakeGoroutineIdService numWorkers numCalls sch3 s3 \<longrightarrow>
      mset (map unat (observed s3)) = mset [1..<Suc (iterations numWorkers * iterations numCalls)] \<and>
      distinct (observed s3))"
proof -
  have a: "mset (map unat (observed s1)) = mset [1..<Suc (iterations numWorkers * iterations numCalls)] \<and>
           distinct (observed s1)"
    if "complete_run atomic_call no_internal atomicIdService_new numWorkers numCalls sch1 s1"
    using that unfolding complete_run_def by (intro complete_values[OF atomic_run]) blast+
  have m: "mset (map unat (observed s2)) = mset [1..<Suc (iterations numWorkers * iterations numCalls)] \<and>
           distinct (observed s2)"
    if "complete_run mutex_call no_internal mutexIdService_new numWorkers numCalls sch2 s2"
    using that unfolding complete_run_def by (intro complete_values[OF mutex_run]) blast+
  have g: "mset (map unat (observed s3)) = mset [1..<Suc (iterations numWorkers * iterations numCalls)] \<and>
           distinct (observed s3)"
    if "complete_run goroutine_call goroutine_internal MakeGoroutineIdService numWorkers numCalls sch3 s3"
    using that unfolding complete_run_def by (intro complete_values[OF goroutine_run]) blast+
  from a m g show ?thesis by blast
qed

theorem synchronized_increasing:
  "(exec atomic_call no_internal (chanCap numWorkers numCalls) (iterations numCalls) sch1
      (init atomicIdService_new numWorkers numCalls) = Some s1 \<longrightarrow>
      (\<forall>w\<in>set (workers s1). sorted_wrt (<) (w_obs w))) \<and>
   (exec mutex_call no_internal (chanCap numWorkers numCalls) (iterations numCalls) sch2
      (init mutexIdService_new numWorkers numCalls) = Some s2 \<longrightarrow>
      (\<forall>w\<in>set (workers s2). sorted_wrt (<) (w_obs w))) \<and>
   (exec goroutine_call goroutine_internal (chanCap numWorkers numCalls) (iterations numCalls) sch3
      (init MakeGoroutineIdService numWorkers numCalls) = Some s3 \<longrightarrow>
      (\<forall>w\<in>set (workers s3). sorted_wrt (<) (w_obs w)))"
proof -
  have a: "\<forall>w\<in>set (workers s1). sorted_wrt (<) (w_obs w)"
    if "exec atomic_call no_internal (chanCap numWorkers numCalls) (iterations numCalls) sch1
          (init atomicIdService_new numWorkers numCalls) = Some s1"
    using that by (intro run_increasing[OF atomic_run])
  have m: "\<forall>w\<in>set (workers s2). sorted_wrt (<) (w_obs w)"
    if "exec mutex_call no_internal (chanCap numWorkers numCalls) (iterations numCalls) sch2
          (init mutexIdService_new numWorkers numCalls) = Some s2"
    using that by (intro run_increasing[OF mutex_run])
  have g: "\<forall>w\<in>set (workers s3). sorted_wrt (<) (w_obs w)"
    if "exec goroutine_call goroutine_internal (chanCap numWorkers numCalls) (iterations numCalls) sch3
          (init MakeGoroutineIdService numWorkers numCalls) = Some s3"
    using that by (intro run_increasing[OF goroutine_run])
  from a m g show ?thesis by blast
qed

text \<open>
  For every service: no worker of \<open>RunService\<close> ever returns the error, since \<open>lastId\<close> stays
  \<open>0\<close>; the verdict of a complete run depends on the maximum in \<open>idChan\<close> alone.
\<close>

lemma harness_run:
  assumes "exec call internal (chanCap numWorkers numCalls) (iterations numCalls) sch
             (init svc numWorkers numCalls) = Some s"
  shows "harness_inv (chanCap numWorkers numCalls) (iterations numCalls) s"
  by (rule exec_invariant[where I = "harness_inv (chanCap numWorkers numCalls) (iterations numCalls)",
        OF _ harness_inv_init assms])
     (rule harness_inv_step)

lemma Wait_None:
  assumes "\<forall>w\<in>set ws. worker_ok nC w"
  shows "Wait ws = None"
proof -
  have "worker_err w = None" if "worker_ok nC w" for w :: "'a worker"
    using that by (cases "w_pc w") simp_all
  then have "List.map_filter worker_err ws = []"
    using assms by (induction ws) (simp_all add: List.map_filter_simps)
  then show ?thesis by (simp add: Wait_def)
qed

theorem validator_verdict:
  assumes "complete_run call internal svc numWorkers numCalls sch s"
  shows "verdict_of numWorkers numCalls s =
           (if maxId (idChan s) = numWorkers * numCalls then Pass
            else Fatal_MaxIncorrect (numWorkers * numCalls) (maxId (idChan s)))"
proof -
  from assms have "harness_inv (chanCap numWorkers numCalls) (iterations numCalls) s"
    unfolding complete_run_def by (blast intro: harness_run)
  then have "Wait (workers s) = None"
    unfolding harness_inv_def by (blast intro: Wait_None)
  then show ?thesis by (simp add: verdict_of_def)
qed

text \<open>
  Such runs exist, and the validator passes them: two workers with two calls each, their
  calls interleaved, on each of the three services.
\<close>

lemma synchronized_runs_pass:
  "observations atomic_call no_internal atomicIdService_new 2 2
     [Work 0 0, Work 1 0, Work 0 0, Work 1 0, Work 0 0, Work 1 0, Work 0 0, Work 1 0,
      Work 0 0, Work 1 0]
     = Some [[1, 3], [2, 4]] \<and>
   RunService atomic_call no_internal atomicIdService_new 2 2
     [Work 0 0, Work 1 0, Work 0 0, Work 1 0, Work 0 0, Work 1 0, Work 0 0, Work 1 0,
      Work 0 0, Work 1 0]
     = Some Pass \<and>
   observations mutex_call no_internal mutexIdService_new 2 2
     (replicate 5 (Work 0 0) @ replicate 5 (Work 1 0) @ [Work 0 0, Work 1 0] @
      replicate 5 (Work 1 0) @ replicate 5 (Work 0 0) @ [Work 0 0, Work 1 0, Work 0 0, Work 1 0])
     = Some [[1, 4], [2, 3]] \<and>
   RunService mutex_call no_internal mutexIdService_new 2 2
     (replicate 5 (Work 0 0) @ replicate 5 (Work 1 0) @ [Work 0 0, Work 1 0] @
      replicate 5 (Work 1 0) @ replicate 5 (Work 0 0) @ [Work 0 0, Work 1 0, Work 0 0, Work 1 0])
     = Some Pass \<and>
   observations goroutine_call goroutine_internal MakeGoroutineIdService 2 2
     [Work 0 0, Serve 0, Work 0 0, Work 1 0, Work 0 0, Serve 0, Work 1 0, Work 1 0,
      Work 1 0, Serve 0, Work 1 0, Work 0 0, Work 1 0, Serve 0, Work 0 0, Work 0 0,
      Work 0 0, Work 1 0]
     = Some [[1, 4], [2, 3]] \<and>
   RunService goroutine_call goroutine_internal MakeGoroutineIdService 2 2
     [Work 0 0, Serve 0, Work 0 0, Work 1 0, Work 0 0, Serve 0, Work 1 0, Work 1 0,
      Work 1 0, Serve 0, Work 1 0, Work 0 0, Work 1 0, Serve 0, Work 0 0, Work 0 0,
      Work 0 0, Work 1 0]
     = Some Pass"
  by code_simp

section \<open>\<open>Start\<close>, and the \<open>responses\<close> channel\<close>

text \<open>\<open>Start\<close> has no guard: each call adds a listening goroutine and changes nothing else.\<close>

lemma Start_adds_an_owner:
  "active MakeGoroutineIdService = 1 \<and>
   active (Start s) = Suc (active s) \<and>
   owners (Start s) = owners s @ [\<lparr>o_pc = Listening, o_id = 0\<rparr>] \<and>
   requests_closed (Start s) = requests_closed s \<and>
   responses_closed (Start s) = responses_closed s"
  by (simp add: active_def MakeGoroutineIdService_def Start_def)





text \<open>
  The service of a run of \<open>RunService\<close> goes through such states only, so \<open>responses\<close> is
  open at every point of every run.
\<close>

lemma run_reachable:
  assumes "exec goroutine_call goroutine_internal cap nC sch s = Some s'"
    and "reachable (service s)"
  shows "reachable (service s')"
proof (rule exec_invariant[where I = "\<lambda>s. reachable (service s)", OF _ assms(2) assms(1)])
  fix l and s s' :: "(goroutineIdService, goroutine_pc) state"
  assume r: "reachable (service s)"
    and st: "step goroutine_call goroutine_internal cap nC l s = Some s'"
  from st show "reachable (service s')"
  proof (cases rule: step_cases)
    case (Serve k svc')
    then show ?thesis using r by (auto intro: reachable.r_owner)
  next
    case (Next t k c svc' c')
    then show ?thesis using r by (auto intro: reachable.r_Next)
  next
    case (Return t k c svc' v)
    then show ?thesis using r by (auto intro: reachable.r_Return)
  next
    case (Panic t k c p)
    then show ?thesis using r by simp
  next
    case (Send t k v)
    then show ?thesis using r by simp
  next
    case (Exit t k)
    then show ?thesis using r by simp
  qed
qed

lemma do_call_Panics:
  "call k (service st) c = Panics p \<Longrightarrow> do_call call t k c st = Some (st\<lparr>crashed := Some p\<rparr>)"
  by (simp add: do_call_def)

section \<open>The claims\<close>

text \<open>
  C1. On the owner-thread service as the test's \<open>setup\<close> builds it (\<open>Start\<close> called on the
  service \<open>MakeGoroutineIdService\<close> has started already), a run of one worker and two calls
  returns \<open>1\<close> twice when the two requests reach different serving goroutines: a duplicate,
  the value \<open>2\<close> skipped, and \<open>RunService\<close> fails the run for its maximum. (Without the second
  \<open>Start\<close>, and for the atomic and mutex services, \<open>synchronized_values\<close> above gives the
  values \<open>1, ..., N * M\<close> on every run.)
\<close>

theorem double_Start_duplicates:
  "observations goroutine_call goroutine_internal setup_goroutines 1 2
     [Work 0 0, Serve 0, Work 0 0, Work 0 0, Work 0 1, Serve 1, Work 0 1, Work 0 0, Work 0 0]
     = Some [[1, 1]] \<and>
   RunService goroutine_call goroutine_internal setup_goroutines 1 2
     [Work 0 0, Serve 0, Work 0 0, Work 0 0, Work 0 1, Serve 1, Work 0 1, Work 0 0, Work 0 0]
     = Some (Fatal_MaxIncorrect 2 1)"
  by code_simp

text \<open>
  C2. \<open>noSyncIdService\<close> has a run with two workers and one call each in which both workers
  load the same value \<open>0\<close> of \<open>i.id\<close> before either stores (their positions after the first
  two steps), and both return \<open>1\<close>: the values returned hold a duplicate, their maximum
  \<open>1\<close> is below the number \<open>2\<close> of calls, and \<open>RunService\<close> fails the run for its maximum.
\<close>

theorem noSync_lost_update:
  "positions noSync_call no_internal noSyncIdService_new 2 1 [Work 0 0, Work 1 0]
     = Some [InCall (NoSyncLoaded 0), InCall (NoSyncLoaded 0)] \<and>
   observations noSync_call no_internal noSyncIdService_new 2 1
     ([Work 0 0, Work 1 0] @
      [Work 0 0, Work 1 0, Work 0 0, Work 1 0, Work 0 0, Work 1 0, Work 0 0, Work 1 0])
     = Some [[1], [1]] \<and>
   RunService noSync_call no_internal noSyncIdService_new 2 1
     ([Work 0 0, Work 1 0] @
      [Work 0 0, Work 1 0, Work 0 0, Work 1 0, Work 0 0, Work 1 0, Work 0 0, Work 1 0])
     = Some (Fatal_MaxIncorrect 2 1)"
  by code_simp

text \<open>
  C3. For each of the four services: a fresh instance holds the value \<open>0\<close>, and \<open>n\<close> calls made
  one after the other by a single caller return \<open>1, 2, ..., n\<close>, so the \<open>i\<close>-th call returns \<open>i\<close>
  (as \<open>uint64\<close> values; read as numbers, exactly \<open>1, ..., i\<close> for every count \<open>i\<close> that a
  \<open>uint64\<close> can hold). In the harness, every complete run with one worker and one call
  observes exactly the value \<open>1\<close>. The owner-thread service is the one
  \<open>MakeGoroutineIdService\<close> returns.
\<close>

theorem fresh_service_ith_call:
  "ns_id noSyncIdService_new = 0 \<and> at_id atomicIdService_new = 0 \<and>
   mu_id mutexIdService_new = 0 \<and> map o_id (owners MakeGoroutineIdService) = [0] \<and>
   returned (calls (total noSync_getNext) n noSyncIdService_new) = [Inr (map of_nat [1..<Suc n])] \<and>
   returned (calls (total atomic_getNext) n atomicIdService_new) = [Inr (map of_nat [1..<Suc n])] \<and>
   returned (calls (single mutex_getNext) n mutexIdService_new) = [Inr (map of_nat [1..<Suc n])] \<and>
   returned (calls goroutine_getNext n MakeGoroutineIdService) = [Inr (map of_nat [1..<Suc n])] \<and>
   returned_nats (calls (total noSync_getNext) (unat (i :: u64)) noSyncIdService_new)
     = [Inr [1..<Suc (unat i)]] \<and>
   returned_nats (calls (total atomic_getNext) (unat i) atomicIdService_new)
     = [Inr [1..<Suc (unat i)]] \<and>
   returned_nats (calls (single mutex_getNext) (unat i) mutexIdService_new)
     = [Inr [1..<Suc (unat i)]] \<and>
   returned_nats (calls goroutine_getNext (unat i) MakeGoroutineIdService)
     = [Inr [1..<Suc (unat i)]] \<and>
   (complete_run noSync_call no_internal noSyncIdService_new 1 1 sch1 s1 \<longrightarrow> observed s1 = [1]) \<and>
   (complete_run atomic_call no_internal atomicIdService_new 1 1 sch2 s2 \<longrightarrow> observed s2 = [1]) \<and>
   (complete_run mutex_call no_internal mutexIdService_new 1 1 sch3 s3 \<longrightarrow> observed s3 = [1]) \<and>
   (complete_run goroutine_call goroutine_internal MakeGoroutineIdService 1 1 sch4 s4 \<longrightarrow>
      observed s4 = [1])"
proof -
  have fresh: "ns_id noSyncIdService_new = 0" "at_id atomicIdService_new = 0"
    "mu_id mutexIdService_new = 0" "map o_id (owners MakeGoroutineIdService) = [0]"
    by (simp_all add: noSyncIdService_new_def atomicIdService_new_def mutexIdService_new_def
        MakeGoroutineIdService_def Start_def)
  have nats: "returned_nats (calls (total noSync_getNext) (unat i) noSyncIdService_new)
                = [Inr [1..<Suc (unat i)]]"
    "returned_nats (calls (total atomic_getNext) (unat i) atomicIdService_new)
       = [Inr [1..<Suc (unat i)]]"
    "returned_nats (calls (single mutex_getNext) (unat i) mutexIdService_new)
       = [Inr [1..<Suc (unat i)]]"
    "returned_nats (calls goroutine_getNext (unat i) MakeGoroutineIdService)
       = [Inr [1..<Suc (unat i)]]"
    by (rule returned_nats_of, rule returned_noSync returned_atomic returned_mutex
        returned_goroutine)+
  have r1: "observed s1 = [1]"
    if "complete_run noSync_call no_internal noSyncIdService_new 1 1 sch1 s1"
    using that unfolding complete_run_def
    by (intro one_by_one one_worker_run[OF noSync_solo_run]) blast+
  have r2: "observed s2 = [1]"
    if "complete_run atomic_call no_internal atomicIdService_new 1 1 sch2 s2"
    using that unfolding complete_run_def
    by (intro one_by_one one_worker_run[OF atomic_run]) blast+
  have r3: "observed s3 = [1]"
    if "complete_run mutex_call no_internal mutexIdService_new 1 1 sch3 s3"
    using that unfolding complete_run_def
    by (intro one_by_one one_worker_run[OF mutex_run]) blast+
  have r4: "observed s4 = [1]"
    if "complete_run goroutine_call goroutine_internal MakeGoroutineIdService 1 1 sch4 s4"
    using that unfolding complete_run_def
    by (intro one_by_one one_worker_run[OF goroutine_run]) blast+
  show ?thesis
    unfolding returned_noSync returned_atomic returned_mutex returned_goroutine
    using fresh nats r1 r2 r3 r4 by blast
qed

theorem fresh_service_ith_call_witness:
  "\<exists>s1 s2 s3 s4.
     complete_run noSync_call no_internal noSyncIdService_new 1 1
       [Work 0 0, Work 0 0, Work 0 0, Work 0 0, Work 0 0] s1 \<and> observed s1 = [1] \<and>
     complete_run atomic_call no_internal atomicIdService_new 1 1
       [Work 0 0, Work 0 0, Work 0 0] s2 \<and> observed s2 = [1] \<and>
     complete_run mutex_call no_internal mutexIdService_new 1 1
       [Work 0 0, Work 0 0, Work 0 0, Work 0 0, Work 0 0, Work 0 0, Work 0 0] s3 \<and>
     observed s3 = [1] \<and>
     complete_run goroutine_call goroutine_internal MakeGoroutineIdService 1 1
       [Work 0 0, Serve 0, Work 0 0, Work 0 0, Work 0 0] s4 \<and> observed s4 = [1]"
proof -
  let ?w = "\<lparr>w_pc = ReturnedNil, w_lastId = 0, w_j = 1, w_obs = [1]\<rparr>"
  let ?s1 = "\<lparr>service = \<lparr>ns_id = 1\<rparr>, workers = [?w :: noSync_pc worker],
              idChan = [1], crashed = None\<rparr>"
  let ?s2 = "\<lparr>service = \<lparr>at_id = 1\<rparr>, workers = [?w :: unit worker],
              idChan = [1], crashed = None\<rparr>"
  let ?s3 = "\<lparr>service = \<lparr>mu_locked = False, mu_id = 1\<rparr>, workers = [?w :: mutex_pc worker],
              idChan = [1], crashed = None\<rparr>"
  let ?s4 = "\<lparr>service = \<lparr>requests_closed = False, responses_closed = False,
                          owners = [\<lparr>o_pc = Listening, o_id = 1\<rparr>]\<rparr>,
              workers = [?w :: goroutine_pc worker], idChan = [1], crashed = None\<rparr>"
  have c1: "complete_run noSync_call no_internal noSyncIdService_new 1 1
              [Work 0 0, Work 0 0, Work 0 0, Work 0 0, Work 0 0] ?s1"
    by code_simp
  have c2: "complete_run atomic_call no_internal atomicIdService_new 1 1
              [Work 0 0, Work 0 0, Work 0 0] ?s2"
    by code_simp
  have c3: "complete_run mutex_call no_internal mutexIdService_new 1 1
              [Work 0 0, Work 0 0, Work 0 0, Work 0 0, Work 0 0, Work 0 0, Work 0 0] ?s3"
    by code_simp
  have c4: "complete_run goroutine_call goroutine_internal MakeGoroutineIdService 1 1
              [Work 0 0, Serve 0, Work 0 0, Work 0 0, Work 0 0] ?s4"
    by code_simp
  from fresh_service_ith_call[of 0 0 _ ?s1 _ ?s2 _ ?s3 _ ?s4] c1 c2 c3 c4
  have "observed ?s1 = [1]" "observed ?s2 = [1]" "observed ?s3 = [1]" "observed ?s4 = [1]"
    by blast+
  with c1 c2 c3 c4 show ?thesis by blast
qed

text \<open>
  C4. The validator does not fail every run in which a worker observes a decrease: with a
  service that returns \<open>2\<close> and then \<open>1\<close> to the single worker of a run of two calls, the
  worker observes \<open>2, 1\<close> and \<open>RunService\<close> passes, the maximum being \<open>2 = 1 * 2\<close>.
\<close>

theorem validator_passes_decreasing_worker:
  "observations scripted_call no_internal [2, 1] 1 2
     [Work 0 0, Work 0 0, Work 0 0, Work 0 0, Work 0 0] = Some [[2, 1]] \<and>
   RunService scripted_call no_internal [2, 1] 1 2
     [Work 0 0, Work 0 0, Work 0 0, Work 0 0, Work 0 0] = Some Pass"
  by code_simp

text \<open>
  C5. Once \<open>Stop\<close> has run on a started owner-thread service, a call to \<open>getNext\<close> does not
  block: its first operation, the send on the closed \<open>requests\<close> channel, panics
  (\<open>send on closed channel\<close>). This is the only outcome of the call, whichever serving
  goroutine the runtime would pair it with, and in the harness the step of the calling
  worker is enabled and ends the program with that panic.
\<close>

theorem getNext_after_Stop_panics:
  "Stop s = Inr s' \<Longrightarrow>
     goroutine_getNext s' = [Fails (Panic SendOnClosedChannel)] \<and>
     (\<forall>k. goroutine_call k s' None = Panics SendOnClosedChannel) \<and>
     (\<forall>st t k cap nC.
         service st = s' \<and> crashed st = None \<and> t < length (workers st) \<and>
         w_pc (workers st ! t) = LoopHead \<and> w_j (workers st ! t) < nC \<longrightarrow>
         step goroutine_call goroutine_internal cap nC (Work t k) st
           = Some (st\<lparr>crashed := Some SendOnClosedChannel\<rparr>))"
proof -
  assume "Stop s = Inr s'"
  then have closed: "requests_closed s'"
    by (auto simp: Stop_def split: if_splits)
  then have call: "goroutine_call k s' None = Panics SendOnClosedChannel" for k
    by simp
  have "step goroutine_call goroutine_internal cap nC (Work t k) st
          = Some (st\<lparr>crashed := Some SendOnClosedChannel\<rparr>)"
    if "service st = s'" "crashed st = None" "t < length (workers st)"
      "w_pc (workers st ! t) = LoopHead" "w_j (workers st ! t) < nC"
    for st :: "(goroutineIdService, goroutine_pc) state" and t k cap nC
    using that call[of k] by (simp add: step_def worker_step_def do_call_Panics)
  then show ?thesis using closed call by (simp add: goroutine_getNext_def)
qed

theorem getNext_after_Stop_panics_witness:
  "Stop MakeGoroutineIdService
     = Inr \<lparr>requests_closed = True, responses_closed = False,
            owners = [\<lparr>o_pc = Listening, o_id = 0\<rparr>]\<rparr> \<and>
   goroutine_getNext
     \<lparr>requests_closed = True, responses_closed = False,
      owners = [\<lparr>o_pc = Listening, o_id = 0\<rparr>]\<rparr>
     = [Fails (Panic SendOnClosedChannel)] \<and>
   step goroutine_call goroutine_internal 1 1 (Work 0 0)
     (init \<lparr>requests_closed = True, responses_closed = False,
            owners = [\<lparr>o_pc = Listening, o_id = 0\<rparr>]\<rparr> 1 1)
     = Some ((init \<lparr>requests_closed = True, responses_closed = False,
                    owners = [\<lparr>o_pc = Listening, o_id = 0\<rparr>]\<rparr> 1 1)
               \<lparr>crashed := Some SendOnClosedChannel\<rparr>)"
proof -
  let ?s' = "\<lparr>requests_closed = True, responses_closed = False,
             owners = [\<lparr>o_pc = Listening, o_id = 0\<rparr>]\<rparr>"
  let ?st = "init ?s' 1 1 :: (goroutineIdService, goroutine_pc) state"
  have h: "Stop MakeGoroutineIdService = Inr ?s'"
    by (simp add: Stop_def MakeGoroutineIdService_def Start_def)
  have st: "service ?st = ?s' \<and> crashed ?st = None \<and> 0 < length (workers ?st) \<and>
            w_pc (workers ?st ! 0) = LoopHead \<and> w_j (workers ?st ! 0) < 1"
    by (simp add: init_def iterations_1)
  from getNext_after_Stop_panics[OF h] h st show ?thesis by blast
qed

text \<open>
  C6. The code has no guard on \<open>Start\<close>. \<open>MakeGoroutineIdService\<close> returns a service with one
  serving goroutine; the test's \<open>setup\<close> calls \<open>Start\<close> on it once more, and the service then
  has two, on the same pair of channels and each with its own \<open>id\<close>. Both are active at
  once: with two workers, each of them takes the request of one worker while the other is
  busy, each counts to \<open>1\<close>, and both workers are returned \<open>1\<close>.
\<close>

theorem second_Start_second_owner:
  "active MakeGoroutineIdService = 1 \<and>
   active setup_goroutines = 2 \<and>
   owners setup_goroutines = [\<lparr>o_pc = Listening, o_id = 0\<rparr>, \<lparr>o_pc = Listening, o_id = 0\<rparr>] \<and>
   positions goroutine_call goroutine_internal setup_goroutines 2 1 [Work 0 0, Work 1 1]
     = Some [InCall AwaitResponse, InCall AwaitResponse] \<and>
   map_option (\<lambda>st. owners (service st))
     (exec goroutine_call goroutine_internal (chanCap 2 1) (iterations 1)
        [Work 0 0, Work 1 1, Serve 0, Serve 1] (init setup_goroutines 2 1))
     = Some [\<lparr>o_pc = Responding, o_id = 1\<rparr>, \<lparr>o_pc = Responding, o_id = 1\<rparr>] \<and>
   observations goroutine_call goroutine_internal setup_goroutines 2 1
     [Work 0 0, Work 1 1, Serve 0, Serve 1, Work 0 0, Work 1 1, Work 0 0, Work 1 0,
      Work 0 0, Work 1 0]
     = Some [[1], [1]]"
  by code_simp




text \<open>
  C8. On the same service, one worker making three calls is returned \<open>1, 1, 2\<close> when the
  requests reach the two serving goroutines in turn, and \<open>1, 2, 1\<close> when the first two reach
  one of them and the third the other: neither is strictly increasing. (Without the second
  \<open>Start\<close>, and for the atomic and mutex services, \<open>synchronized_increasing\<close> above gives
  strictly increasing values for every worker at every point of every run.)
\<close>

theorem double_Start_not_increasing:
  "observations goroutine_call goroutine_internal setup_goroutines 1 3
     [Work 0 0, Serve 0, Work 0 0, Work 0 0, Work 0 1, Serve 1, Work 0 1, Work 0 0,
      Work 0 0, Serve 0, Work 0 0, Work 0 0, Work 0 0]
     = Some [[1, 1, 2]] \<and>
   RunService goroutine_call goroutine_internal setup_goroutines 1 3
     [Work 0 0, Serve 0, Work 0 0, Work 0 0, Work 0 1, Serve 1, Work 0 1, Work 0 0,
      Work 0 0, Serve 0, Work 0 0, Work 0 0, Work 0 0]
     = Some (Fatal_MaxIncorrect 3 2) \<and>
   observations goroutine_call goroutine_internal setup_goroutines 1 3
     [Work 0 0, Serve 0, Work 0 0, Work 0 0, Work 0 0, Serve 0, Work 0 0, Work 0 0,
      Work 0 1, Serve 1, Work 0 1, Work 0 0, Work 0 0]
     = Some [[1, 2, 1]] \<and>
   RunService goroutine_call goroutine_internal setup_goroutines 1 3
     [Work 0 0, Serve 0, Work 0 0, Work 0 0, Work 0 0, Serve 0, Work 0 0, Work 0 0,
      Work 0 1, Serve 1, Work 0 1, Work 0 0, Work 0 0]
     = Some (Fatal_MaxIncorrect 3 2)"
  by code_simp

text \<open>
  C9, as the claim states it, fails: \<open>Stop\<close> is not idempotent. After one \<open>Stop\<close> on the
  service \<open>MakeGoroutineIdService\<close> returns, a second \<open>Stop\<close> panics
  (\<open>close of closed channel\<close>).
\<close>

theorem Stop_twice_panics:
  "Stop MakeGoroutineIdService = Inr (MakeGoroutineIdService\<lparr>requests_closed := True\<rparr>) \<and>
   Stop (MakeGoroutineIdService\<lparr>requests_closed := True\<rparr>) = Inl CloseOfClosedChannel"
  by (simp add: Stop_def MakeGoroutineIdService_def Start_def)

text \<open>
  C9, amended. \<open>Stop\<close> on a service whose \<open>requests\<close> channel is open completes without error
  and closes the channel, after which every listening serving goroutine can leave its loop
  and stop; \<open>Stop\<close> on a service whose channel is closed already panics.
\<close>

theorem Stop_once_then_panics:
  "(\<not> requests_closed s \<longrightarrow>
      Stop s = Inr (s\<lparr>requests_closed := True\<rparr>) \<and>
      (\<forall>k<length (owners s). o_pc (owners s ! k) = Listening \<longrightarrow>
          goroutine_internal k (s\<lparr>requests_closed := True\<rparr>)
            = Some (s\<lparr>requests_closed := True,
                      owners := (owners s)[k := (owners s ! k)\<lparr>o_pc := Stopped\<rparr>]\<rparr>))) \<and>
   (requests_closed s \<longrightarrow> Stop s = Inl CloseOfClosedChannel)"
  by (simp add: Stop_def goroutine_internal_def)

theorem Stop_once_then_panics_witness:
  "\<not> requests_closed MakeGoroutineIdService \<and>
   Stop MakeGoroutineIdService = Inr (MakeGoroutineIdService\<lparr>requests_closed := True\<rparr>) \<and>
   goroutine_internal 0 (MakeGoroutineIdService\<lparr>requests_closed := True\<rparr>)
     = Some \<lparr>requests_closed = True, responses_closed = False,
             owners = [\<lparr>o_pc = Stopped, o_id = 0\<rparr>]\<rparr> \<and>
   requests_closed (MakeGoroutineIdService\<lparr>requests_closed := True\<rparr>) \<and>
   Stop (MakeGoroutineIdService\<lparr>requests_closed := True\<rparr>) = Inl CloseOfClosedChannel"
proof -
  have open1: "\<not> requests_closed MakeGoroutineIdService"
    and l: "0 < length (owners MakeGoroutineIdService)"
      "o_pc (owners MakeGoroutineIdService ! 0) = Listening"
    by (simp_all add: MakeGoroutineIdService_def Start_def)
  have closed2: "requests_closed (MakeGoroutineIdService\<lparr>requests_closed := True\<rparr>)"
    by simp
  from Stop_once_then_panics[of MakeGoroutineIdService] open1 l
  have "Stop MakeGoroutineIdService = Inr (MakeGoroutineIdService\<lparr>requests_closed := True\<rparr>)"
    and "goroutine_internal 0 (MakeGoroutineIdService\<lparr>requests_closed := True\<rparr>)
           = Some (MakeGoroutineIdService\<lparr>requests_closed := True,
                owners := (owners MakeGoroutineIdService)[0 :=
                  (owners MakeGoroutineIdService ! 0)\<lparr>o_pc := Stopped\<rparr>]\<rparr>)"
    by blast+
  moreover from Stop_once_then_panics[of "MakeGoroutineIdService\<lparr>requests_closed := True\<rparr>"] closed2
  have "Stop (MakeGoroutineIdService\<lparr>requests_closed := True\<rparr>) = Inl CloseOfClosedChannel"
    by blast
  ultimately show ?thesis using open1
    by (simp add: MakeGoroutineIdService_def Start_def)
qed

text \<open>
  C10. Used by one caller, with no concurrent access, \<open>noSyncIdService\<close> is correct: \<open>n\<close>
  calls made one after the other on a fresh instance return \<open>1, 2, ..., n\<close> (as \<open>uint64\<close>
  values; read as numbers, exactly \<open>1, ..., i\<close> for every count \<open>i\<close> that a \<open>uint64\<close> can
  hold), which are the results of the three synchronized services. The same holds in the
  harness with one worker: every complete run of \<open>numCalls\<close> calls observes
  \<open>1, ..., numCalls\<close> in call order.
\<close>

theorem noSync_sequential_correct:
  "returned (calls (total noSync_getNext) n noSyncIdService_new) = [Inr (map of_nat [1..<Suc n])] \<and>
   returned_nats (calls (total noSync_getNext) (unat (i :: u64)) noSyncIdService_new)
     = [Inr [1..<Suc (unat i)]] \<and>
   returned (calls (total noSync_getNext) n noSyncIdService_new)
     = returned (calls (total atomic_getNext) n atomicIdService_new) \<and>
   returned (calls (total noSync_getNext) n noSyncIdService_new)
     = returned (calls (single mutex_getNext) n mutexIdService_new) \<and>
   returned (calls (total noSync_getNext) n noSyncIdService_new)
     = returned (calls goroutine_getNext n MakeGoroutineIdService) \<and>
   (complete_run noSync_call no_internal noSyncIdService_new 1 numCalls sch s \<longrightarrow>
      map unat (observed s) = [1..<Suc (iterations numCalls)])"
proof -
  have run: "map unat (observed s) = [1..<Suc (iterations numCalls)]"
    if c: "complete_run noSync_call no_internal noSyncIdService_new 1 numCalls sch s"
  proof -
    from c have ex: "exec noSync_call no_internal (chanCap 1 numCalls) (iterations numCalls) sch
                       (init noSyncIdService_new 1 numCalls) = Some s"
      and f: "finished s"
      unfolding complete_run_def by blast+
    note inv = noSync_solo_run[OF ex]
    have one: "length (workers s) = 1" using inv by (simp add: init_def iterations_1)
    show ?thesis
      by (rule single_worker_values[OF _ _ f chanCap_less one]) (use inv in blast)+
  qed
  have nats: "returned_nats (calls (total noSync_getNext) (unat i) noSyncIdService_new)
                = [Inr [1..<Suc (unat i)]]"
    by (rule returned_nats_of) (rule returned_noSync)
  show ?thesis
    unfolding returned_noSync returned_atomic returned_mutex returned_goroutine
    using run nats by blast
qed

theorem noSync_sequential_correct_witness:
  "\<exists>s. complete_run noSync_call no_internal noSyncIdService_new 1 2
          [Work 0 0, Work 0 0, Work 0 0, Work 0 0, Work 0 0, Work 0 0, Work 0 0, Work 0 0, Work 0 0] s \<and>
       map unat (observed s) = [1..<Suc (iterations 2)]"
proof -
  let ?s = "\<lparr>service = \<lparr>ns_id = 2\<rparr>,
       workers = [\<lparr>w_pc = ReturnedNil :: noSync_pc wpc, w_lastId = 0, w_j = 2, w_obs = [1, 2]\<rparr>],
       idChan = [1, 2], crashed = None\<rparr>"
  have c: "complete_run noSync_call no_internal noSyncIdService_new 1 2
      [Work 0 0, Work 0 0, Work 0 0, Work 0 0, Work 0 0, Work 0 0, Work 0 0, Work 0 0, Work 0 0] ?s"
    by code_simp
  from noSync_sequential_correct[of 0 0 2 _ ?s] c
  have "map unat (observed ?s) = [1..<Suc (iterations 2)]" by blast
  with c show ?thesis by blast
qed

end
